theory Spec2Isabelle
  imports
    Main
    "HOL-Library.Product_Lexorder"
    "HOL-Library.List_Lexorder"
    "HOL-Library.Char_ord"
    "HOL-Library.AList"
    "HOL-Library.Multiset"
begin

section \<open>Minimax over an explicit game tree (minimax.py)\<close>

text \<open>
  \<^verbatim>\<open>PlayerType\<close> is the enum of the two players (\<open>MAX\<close> and \<open>MIN\<close> in the source; the
  suffix keeps them apart from the binders of the same name). A \<^verbatim>\<open>GameNode\<close> has a name, a player,
  the list of its children in the order \<^verbatim>\<open>add_child\<close> appended them, and an optional
  utility; \<^verbatim>\<open>is_terminal\<close> is set by the constructor to \<^verbatim>\<open>utility is not None\<close>.
  A datatype value is a finite tree, which is what the recursion of \<^verbatim>\<open>_minimax\<close> needs
  to return at all.
\<close>

datatype PlayerType = MAX_player | MIN_player

datatype GameNode =
  GameNode (name: string) (player: PlayerType) (children: "GameNode list") (utility: "int option")

definition is_terminal :: "GameNode \<Rightarrow> bool" where
  "is_terminal node = (utility node \<noteq> None)"

text \<open>
  The values \<^verbatim>\<open>_minimax\<close> returns: a utility (a Python int), or one of the two floats
  \<^verbatim>\<open>float('-inf')\<close> and \<^verbatim>\<open>float('inf')\<close> that initialise \<^verbatim>\<open>best_value\<close>.
  \<open>num_less a b\<close> is Python's \<^verbatim>\<open>a < b\<close> on them (and \<^verbatim>\<open>b > a\<close>).
\<close>

datatype number = NegInf | Num int | PosInf

fun num_less :: "number \<Rightarrow> number \<Rightarrow> bool" where
  "num_less NegInf b = (b \<noteq> NegInf)"
| "num_less (Num a) NegInf = False"
| "num_less (Num a) (Num b) = (a < b)"
| "num_less (Num a) PosInf = True"
| "num_less PosInf b = False"

text \<open>
  \<^verbatim>\<open>_minimax(node, path, depth, verbose)\<close>. The counter \<^verbatim>\<open>nodes_evaluated\<close>, the depth and
  the printing under \<^verbatim>\<open>verbose\<close> are instrumentation and do not reach the returned pair.
  Each \<^verbatim>\<open>for child in node.children\<close> loop is a left fold over the children whose state
  is the pair \<^verbatim>\<open>(best_value, best_path)\<close>.
\<close>

fun minimax :: "GameNode \<Rightarrow> string list \<Rightarrow> number \<times> string list" where
  "minimax (GameNode nm pl cs ut) path =
     (let current_path = path @ [nm] in
      case ut of
        Some u \<Rightarrow> (Num u, current_path)
      | None \<Rightarrow>
          if pl = MAX_player then
            foldl (\<lambda>best child.
                     let r = minimax child current_path in
                     if num_less (fst best) (fst r) then r else best)
                  (NegInf, current_path) cs
          else
            foldl (\<lambda>best child.
                     let r = minimax child current_path in
                     if num_less (fst r) (fst best) then r else best)
                  (PosInf, current_path) cs)"

declare minimax.simps [simp del]

record MiniMaxResult =
  best_value :: number
  best_path :: "string list"

text \<open>
  \<^verbatim>\<open>MiniMax.search(root)\<close>: the result object without its \<^verbatim>\<open>decision_tree\<close> string, which
  is a rendering of the tree for display.
\<close>

definition MiniMax_search :: "GameNode \<Rightarrow> MiniMaxResult" where
  "MiniMax_search root =
     (let r = minimax root [] in \<lparr>best_value = fst r, best_path = snd r\<rparr>)"

text \<open>The tree that \<^verbatim>\<open>create_ethiopia_adversarial_game\<close> builds.\<close>

definition leaf :: "string \<Rightarrow> int \<Rightarrow> GameNode" where
  "leaf nm u = GameNode nm MAX_player [] (Some u)"

definition create_ethiopia_adversarial_game :: GameNode where
  "create_ethiopia_adversarial_game =
     GameNode ''Addis Ababa'' MAX_player
       [GameNode ''Gedo'' MAX_player
          [GameNode ''Nekemete'' MIN_player [leaf ''Shambu'' 4, leaf ''Fincha'' 5] None,
           GameNode ''Gimbi-Limu'' MIN_player [leaf ''Gimbi'' 8, leaf ''Limu'' 8] None] None,
        GameNode ''Ambo'' MAX_player
          [GameNode ''Buta Jirra'' MIN_player
             [GameNode ''Worabe'' MAX_player [leaf ''Hossana'' 6, leaf ''Durame'' 5] None,
              GameNode ''Wolkite'' MAX_player
                [leaf ''Bench Naji'' 5, leaf ''Tepi'' 6, leaf ''Kaffa'' 7] None] None] None,
        GameNode ''Adama'' MIN_player
          [GameNode ''Mojo'' MAX_player [leaf ''Dilla'' 9] None,
           GameNode ''Diredawa'' MIN_player [leaf ''Chiro'' 6, leaf ''Harar'' 10] None] None] None"

subsection \<open>Backward induction, as the specification words it\<close>

text \<open>
  The specification's value of a node: the utility at a terminal node, the maximum of
  the children's values at a MAX node, the minimum at a MIN node.
\<close>

fun backward_induction :: "GameNode \<Rightarrow> int" where
  "backward_induction (GameNode nm pl cs ut) =
     (case ut of
        Some u \<Rightarrow> u
      | None \<Rightarrow>
          if pl = MAX_player then Max (set (map backward_induction cs))
          else Min (set (map backward_induction cs)))"

text \<open>
  The specification's path: the node's name, followed at a non-terminal node by the path
  of the first child (in declared order) whose value is the node's value.
\<close>

fun optimal_path :: "GameNode \<Rightarrow> string list" where
  "optimal_path (GameNode nm pl cs ut) =
     nm # (case ut of
             Some u \<Rightarrow> []
           | None \<Rightarrow>
               (case map optimal_path
                       (filter (\<lambda>c. backward_induction c =
                                     backward_induction (GameNode nm pl cs ut)) cs) of
                  [] \<Rightarrow> []
                | p # ps \<Rightarrow> p))"

text \<open>Every node without children carries a utility.\<close>

fun leaves_have_utility :: "GameNode \<Rightarrow> bool" where
  "leaves_have_utility (GameNode nm pl cs ut) =
     ((cs = [] \<longrightarrow> ut \<noteq> None) \<and> list_all leaves_have_utility cs)"

section \<open>The graph model (graph.py)\<close>

text \<open>
  A node is a string. A Python \<^verbatim>\<open>dict\<close> is an association list in insertion order:
  \<open>map_of d k = None\<close> is \<^verbatim>\<open>k not in d\<close>, \<open>AList.update k v d\<close> is \<^verbatim>\<open>d[k] = v\<close> (a new
  key goes to the end, an old key keeps its place), and \<open>dict_get d k\<close> is
  \<^verbatim>\<open>d.get(k, [])\<close>. Where the source writes \<^verbatim>\<open>d[k]\<close> the key has just been created, so
  the default of \<open>dict_get\<close> is not reached there. Edge costs are Python numbers; the
  data set uses integers, and so does the model.
\<close>

type_synonym node = string

definition dict_get :: "('k \<times> 'v list) list \<Rightarrow> 'k \<Rightarrow> 'v list" where
  "dict_get d k = (case map_of d k of None \<Rightarrow> [] | Some v \<Rightarrow> v)"

text \<open>
  \<^verbatim>\<open>Graph\<close> holds \<^verbatim>\<open>adjacency_list\<close>; \<^verbatim>\<open>WeightedGraph(Graph)\<close> adds \<^verbatim>\<open>weighted_adjacency\<close>.
  The subclass is a record extension, so the operations of \<^verbatim>\<open>Graph\<close> apply to both.
\<close>

record Graph =
  adjacency_list :: "(node \<times> node list) list"

record WeightedGraph = Graph +
  weighted_adjacency :: "(node \<times> (node \<times> int) list) list"

definition Graph_init :: Graph where
  "Graph_init = \<lparr>adjacency_list = []\<rparr>"

definition WeightedGraph_init :: WeightedGraph where
  "WeightedGraph_init = \<lparr>adjacency_list = [], weighted_adjacency = []\<rparr>"

definition add_node :: "'a Graph_scheme \<Rightarrow> node \<Rightarrow> 'a Graph_scheme" where
  "add_node g n =
     (if map_of (adjacency_list g) n = None
      then g\<lparr>adjacency_list := AList.update n [] (adjacency_list g)\<rparr>
      else g)"

definition add_edge :: "'a Graph_scheme \<Rightarrow> node \<Rightarrow> node \<Rightarrow> 'a Graph_scheme" where
  "add_edge g node1 node2 =
     (let g1 = add_node (add_node g node1) node2;
          a1 = adjacency_list g1;
          a2 = (if node2 \<notin> set (dict_get a1 node1)
                then AList.update node1 (dict_get a1 node1 @ [node2]) a1 else a1);
          a3 = (if node1 \<notin> set (dict_get a2 node2)
                then AList.update node2 (dict_get a2 node2 @ [node1]) a2 else a2)
      in g1\<lparr>adjacency_list := a3\<rparr>)"

definition get_neighbors :: "'a Graph_scheme \<Rightarrow> node \<Rightarrow> node list" where
  "get_neighbors g n = dict_get (adjacency_list g) n"

text \<open>
  \<^verbatim>\<open>add_weighted_edge\<close>: the unweighted edge first, then the two keys, then one entry per
  direction unless the neighbour is already listed (\<^verbatim>\<open>any(neighbor == node2 for ...)\<close>).
  The second test reads the list as the first append left it.
\<close>

definition add_weighted_edge ::
  "'a WeightedGraph_scheme \<Rightarrow> node \<Rightarrow> node \<Rightarrow> int \<Rightarrow> 'a WeightedGraph_scheme" where
  "add_weighted_edge g node1 node2 cost =
     (let g1 = add_edge g node1 node2;
          w0 = weighted_adjacency g1;
          w1 = (if map_of w0 node1 = None then AList.update node1 [] w0 else w0);
          w2 = (if map_of w1 node2 = None then AList.update node2 [] w1 else w1);
          w3 = (if \<not> list_ex (\<lambda>(neighbor, _). neighbor = node2) (dict_get w2 node1)
                then AList.update node1 (dict_get w2 node1 @ [(node2, cost)]) w2 else w2);
          w4 = (if \<not> list_ex (\<lambda>(neighbor, _). neighbor = node1) (dict_get w3 node2)
                then AList.update node2 (dict_get w3 node2 @ [(node1, cost)]) w3 else w3)
      in g1\<lparr>weighted_adjacency := w4\<rparr>)"

definition get_weighted_neighbors :: "'a WeightedGraph_scheme \<Rightarrow> node \<Rightarrow> (node \<times> int) list" where
  "get_weighted_neighbors g n = dict_get (weighted_adjacency g) n"

definition get_cost :: "'a WeightedGraph_scheme \<Rightarrow> node \<Rightarrow> node \<Rightarrow> int option" where
  "get_cost g node1 node2 = map_of (dict_get (weighted_adjacency g) node1) node2"

text \<open>
  A weighted graph as a caller builds it: any finite sequence of \<^verbatim>\<open>add_weighted_edge\<close>
  calls on a fresh \<^verbatim>\<open>WeightedGraph()\<close>, as \<^verbatim>\<open>create_weighted_ethiopia_graph\<close> does.
\<close>

definition build :: "(node \<times> node \<times> int) list \<Rightarrow> WeightedGraph" where
  "build calls = foldl (\<lambda>g (a, b, c). add_weighted_edge g a b c) WeightedGraph_init calls"

section \<open>Breadth-first and depth-first search (bfs_dfs.py)\<close>

text \<open>
  \<^verbatim>\<open>SearchResult\<close> has the two attributes \<^verbatim>\<open>path\<close> and \<^verbatim>\<open>success\<close>. \<^verbatim>\<open>UCSResult\<close> and
  \<^verbatim>\<open>AStarResult\<close> have \<^verbatim>\<open>path\<close>, \<^verbatim>\<open>total_cost\<close> and \<^verbatim>\<open>success\<close>; they are the same record,
  the extension of the first by the cost.
\<close>

record SearchResult =
  path :: "node list"
  success :: bool

record UCSResult = SearchResult +
  total_cost :: int

type_synonym AStarResult = UCSResult

text \<open>
  The attributes that each \<^verbatim>\<open>__init__\<close> assigns, by name, as \<^verbatim>\<open>vars(result)\<close> shows them.
  Reading an attribute that is not listed raises \<^verbatim>\<open>AttributeError\<close> in Python.
\<close>

datatype pyvalue = PyList "node list" | PyNumber int | PyBool bool

definition SearchResult_vars :: "SearchResult \<Rightarrow> (string \<times> pyvalue) list" where
  "SearchResult_vars r = [(''path'', PyList (path r)), (''success'', PyBool (success r))]"

definition UCSResult_vars :: "UCSResult \<Rightarrow> (string \<times> pyvalue) list" where
  "UCSResult_vars r =
     [(''path'', PyList (path r)), (''total_cost'', PyNumber (total_cost r)),
      (''success'', PyBool (success r))]"

text \<open>
  \<^verbatim>\<open>_breadth_first_search\<close>. \<open>bfs_expand\<close> is the \<^verbatim>\<open>for neighbor in ...\<close> loop of one
  dequeued node: \<open>Inl\<close> is the \<^verbatim>\<open>return\<close> inside the loop, \<open>Inr\<close> the queue and the
  visited set when the loop ends. \<open>bfs_loop\<close> is the \<^verbatim>\<open>while queue\<close> loop;
  \<^verbatim>\<open>popleft\<close> takes the head of the list and \<^verbatim>\<open>append\<close> adds at its end.
\<close>

fun bfs_expand ::
  "node \<Rightarrow> node list \<Rightarrow> node list \<Rightarrow> (node \<times> node list) list \<Rightarrow> node set \<Rightarrow>
   SearchResult + ((node \<times> node list) list \<times> node set)" where
  "bfs_expand goal p [] queue visited = Inr (queue, visited)"
| "bfs_expand goal p (neighbor # ns) queue visited =
     (if neighbor \<notin> visited then
        (let new_path = p @ [neighbor] in
         if neighbor = goal then Inl \<lparr>path = new_path, success = True\<rparr>
         else bfs_expand goal p ns (queue @ [(neighbor, new_path)]) (insert neighbor visited))
      else bfs_expand goal p ns queue visited)"

definition all_neighbors :: "'a Graph_scheme \<Rightarrow> node set" where
  "all_neighbors g = \<Union> (set ` snd ` set (adjacency_list g))"

lemma finite_all_neighbors: "finite (all_neighbors g)"
  by (simp add: all_neighbors_def)

lemma get_neighbors_subset: "set (get_neighbors g n) \<subseteq> all_neighbors g"
proof (cases "map_of (adjacency_list g) n")
  case None
  then show ?thesis by (simp add: get_neighbors_def dict_get_def)
next
  case (Some ns)
  then have "(n, ns) \<in> set (adjacency_list g)" by (rule map_of_SomeD)
  then have "set ns \<subseteq> all_neighbors g" unfolding all_neighbors_def by force
  then show ?thesis using Some by (simp add: get_neighbors_def dict_get_def)
qed

lemma bfs_expand_Inr:
  "bfs_expand goal p ns queue visited = Inr (queue', visited') \<Longrightarrow>
   visited' = visited \<union> set ns \<and>
   (\<exists>new. queue' = queue @ map (\<lambda>n. (n, p @ [n])) new \<and> set new = set ns - visited \<and> distinct new)
   \<and> (goal \<in> set ns \<longrightarrow> goal \<in> visited)"
proof (induction ns arbitrary: queue visited)
  case Nil
  then show ?case by auto
next
  case (Cons n ns)
  show ?case
  proof (cases "n \<in> visited")
    case True
    then have "bfs_expand goal p ns queue visited = Inr (queue', visited')"
      using Cons.prems by simp
    from Cons.IH[OF this] True show ?thesis by auto
  next
    case False
    then have ng: "n \<noteq> goal" using Cons.prems by (auto simp: Let_def split: if_splits)
    then have "bfs_expand goal p ns (queue @ [(n, p @ [n])]) (insert n visited) = Inr (queue', visited')"
      using Cons.prems False by (simp add: Let_def)
    from Cons.IH[OF this] obtain new where
      v: "visited' = insert n visited \<union> set ns" and
      q: "queue' = (queue @ [(n, p @ [n])]) @ map (\<lambda>n. (n, p @ [n])) new" and
      s: "set new = set ns - insert n visited" and d: "distinct new" and
      g: "goal \<in> set ns \<longrightarrow> goal \<in> insert n visited"
      by blast
    have "queue' = queue @ map (\<lambda>n. (n, p @ [n])) (n # new)" using q by simp
    moreover have "set (n # new) = set (n # ns) - visited" using s False by auto
    moreover have "distinct (n # new)" using d s by auto
    moreover have "visited' = visited \<union> set (n # ns)" using v by auto
    moreover have "goal \<in> set (n # ns) \<longrightarrow> goal \<in> visited" using g ng by auto
    ultimately show ?thesis by blast
  qed
qed
function bfs_loop ::
  "'a Graph_scheme \<Rightarrow> node \<Rightarrow> (node \<times> node list) list \<Rightarrow> node set \<Rightarrow> SearchResult" where
  "bfs_loop g goal queue visited =
     (case queue of
        [] \<Rightarrow> \<lparr>path = [], success = False\<rparr>
      | (current, p) # rest \<Rightarrow>
          (case bfs_expand goal p (get_neighbors g current) rest visited of
             Inl result \<Rightarrow> result
           | Inr (queue', visited') \<Rightarrow> bfs_loop g goal queue' visited'))"
  by pat_completeness auto

lemma bfs_loop_decreases:
  assumes "bfs_expand goal p (get_neighbors g current) rest visited = Inr (queue', visited')"
  shows "card (all_neighbors g - visited') < card (all_neighbors g - visited) \<or>
         (card (all_neighbors g - visited') = card (all_neighbors g - visited) \<and>
          length queue' < Suc (length rest))"
proof -
  from bfs_expand_Inr[OF assms] obtain new where
      v: "visited' = visited \<union> set (get_neighbors g current)" and
      q: "queue' = rest @ map (\<lambda>n. (n, p @ [n])) new" and
      s: "set new = set (get_neighbors g current) - visited" by blast
  show ?thesis
  proof (cases "new = []")
    case True
    then have "visited' = visited" using v s by auto
    then show ?thesis using q True by simp
  next
    case False
    then obtain n where n: "n \<in> set (get_neighbors g current)" "n \<notin> visited"
      using s by (metis DiffD1 DiffD2 ex_in_conv set_empty)
    have "all_neighbors g - visited' \<subset> all_neighbors g - visited"
      using v n get_neighbors_subset[of g current] by auto
    then have "card (all_neighbors g - visited') < card (all_neighbors g - visited)"
      by (intro psubset_card_mono) (auto simp: finite_all_neighbors)
    then show ?thesis by simp
  qed
qed

termination bfs_loop
  by (relation "measures [\<lambda>(g, goal, queue, visited). card (all_neighbors g - visited),
                           \<lambda>(g, goal, queue, visited). length queue]")
     (use bfs_loop_decreases in force)+

declare bfs_loop.simps [simp del]

definition breadth_first_search :: "'a Graph_scheme \<Rightarrow> node \<Rightarrow> node \<Rightarrow> SearchResult" where
  "breadth_first_search g initial goal =
     (if map_of (adjacency_list g) initial = None then \<lparr>path = [], success = False\<rparr>
      else if map_of (adjacency_list g) goal = None then \<lparr>path = [], success = False\<rparr>
      else if initial = goal then \<lparr>path = [initial], success = True\<rparr>
      else bfs_loop g goal [(initial, [initial])] {initial})"

text \<open>
  \<^verbatim>\<open>_depth_first_search\<close>. The stack is a list whose last element is the top
  (\<^verbatim>\<open>stack.pop()\<close>, \<^verbatim>\<open>stack.append\<close>). \<^verbatim>\<open>visited\<close> does not change inside the
  \<^verbatim>\<open>for neighbor in reversed(...)\<close> loop, so the loop pushes the unvisited neighbours of
  the reversed list in order.
\<close>

function dfs_loop ::
  "'a Graph_scheme \<Rightarrow> node \<Rightarrow> (node \<times> node list) list \<Rightarrow> node set \<Rightarrow> SearchResult" where
  "dfs_loop g goal stack visited =
     (if stack = [] then \<lparr>path = [], success = False\<rparr>
      else
        let (current, p) = last stack; stack' = butlast stack in
        if current \<in> visited then dfs_loop g goal stack' visited
        else
          let visited' = insert current visited in
          if current = goal then \<lparr>path = p, success = True\<rparr>
          else dfs_loop g goal
                 (stack' @ map (\<lambda>neighbor. (neighbor, p @ [neighbor]))
                             (filter (\<lambda>neighbor. neighbor \<notin> visited')
                                (rev (get_neighbors g current))))
                 visited')"
  by pat_completeness auto

definition dfs_unvisited :: "'a Graph_scheme \<Rightarrow> (node \<times> node list) list \<Rightarrow> node set \<Rightarrow> nat" where
  "dfs_unvisited g stack visited = card (fst ` set stack \<union> all_neighbors g - visited)"

lemma dfs_skip_decreases:
  "dfs_unvisited g (butlast stack) visited \<le> dfs_unvisited g stack visited"
proof -
  have "set (butlast stack) \<subseteq> set stack" by (auto dest: in_set_butlastD)
  then show ?thesis
    unfolding dfs_unvisited_def by (intro card_mono) (auto simp: finite_all_neighbors)
qed

lemma dfs_push_decreases:
  assumes ne: "stack \<noteq> []" and cur: "(current, p) = last stack" and nv: "current \<notin> visited"
    and new: "fst ` set new \<subseteq> all_neighbors g"
  shows "dfs_unvisited g (butlast stack @ new) (insert current visited)
         < dfs_unvisited g stack visited"
proof -
  have sub: "set (butlast stack) \<subseteq> set stack" by (auto dest: in_set_butlastD)
  have "(current, p) \<in> set stack" using ne cur by simp
  then have cin: "current \<in> fst ` set stack" by force
  have "fst ` set (butlast stack @ new) \<union> all_neighbors g - insert current visited
        \<subseteq> (fst ` set stack \<union> all_neighbors g - visited) - {current}"
    using sub new by auto
  also have "\<dots> \<subset> fst ` set stack \<union> all_neighbors g - visited"
    using cin nv by auto
  finally show ?thesis
    unfolding dfs_unvisited_def
    by (intro psubset_card_mono) (auto simp: finite_all_neighbors)
qed

termination dfs_loop
proof (relation "measures [\<lambda>(g, goal, stack, visited). dfs_unvisited g stack visited,
                           \<lambda>(g, goal, stack, visited). length stack]", goal_cases)
  case 1
  show ?case by simp
next
  case (2 g goal stack visited x current p stack')
  then show ?case
    using dfs_skip_decreases[of g stack visited] by auto
next
  case (3 g goal stack visited x current p stack' visited')
  have "fst ` set (map (\<lambda>neighbor. (neighbor, p @ [neighbor]))
                   (filter (\<lambda>neighbor. neighbor \<notin> visited') (rev (get_neighbors g current))))
        \<subseteq> all_neighbors g"
    using get_neighbors_subset[of g current] by auto
  moreover have "(current, p) = last stack" "current \<notin> visited" "stack \<noteq> []"
    using 3 by simp_all
  ultimately have "dfs_unvisited g (butlast stack @ map (\<lambda>neighbor. (neighbor, p @ [neighbor]))
                   (filter (\<lambda>neighbor. neighbor \<notin> visited') (rev (get_neighbors g current))))
                   (insert current visited) < dfs_unvisited g stack visited"
    by (intro dfs_push_decreases) auto
  then show ?case
    using 3 by simp
qed

declare dfs_loop.simps [simp del]

definition depth_first_search :: "'a Graph_scheme \<Rightarrow> node \<Rightarrow> node \<Rightarrow> SearchResult" where
  "depth_first_search g initial goal =
     (if map_of (adjacency_list g) initial = None then \<lparr>path = [], success = False\<rparr>
      else if map_of (adjacency_list g) goal = None then \<lparr>path = [], success = False\<rparr>
      else if initial = goal then \<lparr>path = [initial], success = True\<rparr>
      else dfs_loop g goal [(initial, [initial])] {})"

text \<open>
  \<^verbatim>\<open>str.lower\<close> on strings whose characters have code points below 256: the capitals
  \<open>A\<close> to \<open>Z\<close> (65 to 90) and the Latin-1 capitals (192 to 222, the multiplication sign
  215 apart) move up by 32; every other character stays.
\<close>

definition lower_char :: "char \<Rightarrow> char" where
  "lower_char c =
     (let n = of_char c :: nat in
      if (65 \<le> n \<and> n \<le> 90) \<or> (192 \<le> n \<and> n \<le> 222 \<and> n \<noteq> 215) then char_of (n + 32)
      else c)"

definition lower :: "string \<Rightarrow> string" where
  "lower s = map lower_char s"

text \<open>
  \<^verbatim>\<open>TravelEthiopiaSearch.search\<close> lowers the strategy name, dispatches on it and raises
  \<^verbatim>\<open>ValueError\<close> on any other name.
\<close>

datatype error = ValueError

definition TravelEthiopiaSearch_search ::
  "'a Graph_scheme \<Rightarrow> node \<Rightarrow> node \<Rightarrow> string \<Rightarrow> error + SearchResult" where
  "TravelEthiopiaSearch_search g initial_state goal_state strategy =
     (let strategy = lower strategy in
      if strategy = ''bfs'' then Inr (breadth_first_search g initial_state goal_state)
      else if strategy = ''dfs'' then Inr (depth_first_search g initial_state goal_state)
      else Inl ValueError)"

section \<open>Uniform-cost search (ucs.py)\<close>

text \<open>
  The priority queue of \<^verbatim>\<open>heapq\<close> is the list of its entries. \<^verbatim>\<open>heappop\<close> removes and
  returns the least entry; entries are Python tuples, compared lexicographically, which
  is the order of the product type here (strings and lists compare lexicographically
  too). The least entry is a value of the multiset of entries, so the order in which
  the list keeps them does not matter. \<^verbatim>\<open>heappop\<close> is only called on a non-empty queue
  (\<^verbatim>\<open>while pq\<close>).
\<close>

definition heappush :: "'a list \<Rightarrow> 'a \<Rightarrow> 'a list" where
  "heappush pq e = pq @ [e]"

definition heappop :: "('a::linorder) list \<Rightarrow> 'a \<times> 'a list" where
  "heappop pq = (Min (set pq), remove1 (Min (set pq)) pq)"

text \<open>
  \<^verbatim>\<open>UniformCostSearch.search\<close>. An entry is \<^verbatim>\<open>(cost, counter, city, path)\<close>; \<^verbatim>\<open>visited\<close> is
  a dict from city to cost. \<open>ucs_expand\<close> is the \<^verbatim>\<open>for neighbor, edge_cost in ...\<close> loop
  (it does not change \<^verbatim>\<open>visited\<close>), \<open>ucs_loop\<close> the \<^verbatim>\<open>while pq\<close> loop.
\<close>

type_synonym ucs_entry = "int \<times> nat \<times> node \<times> node list"

fun ucs_expand ::
  "int \<Rightarrow> node list \<Rightarrow> (node \<rightharpoonup> int) \<Rightarrow> (node \<times> int) list \<Rightarrow>
   ucs_entry list \<Rightarrow> nat \<Rightarrow> ucs_entry list \<times> nat" where
  "ucs_expand current_cost p visited [] pq counter = (pq, counter)"
| "ucs_expand current_cost p visited ((neighbor, edge_cost) # ns) pq counter =
     (if visited neighbor = None then
        (let new_cost = current_cost + edge_cost;
             new_path = p @ [neighbor]
         in ucs_expand current_cost p visited ns
              (heappush pq (new_cost, counter + 1, neighbor, new_path)) (counter + 1))
      else ucs_expand current_cost p visited ns pq counter)"
function ucs_loop ::
  "'a WeightedGraph_scheme \<Rightarrow> node \<Rightarrow> ucs_entry list \<Rightarrow> (node \<rightharpoonup> int) \<Rightarrow> nat \<Rightarrow> UCSResult" where
  "ucs_loop g goal pq visited counter =
     (if pq = [] then \<lparr>path = [], success = False, total_cost = 0\<rparr>
      else
        let (current_cost, c, current_city, p) = fst (heappop pq);
            pq' = snd (heappop pq)
        in
        if (case visited current_city of None \<Rightarrow> False | Some v \<Rightarrow> v \<le> current_cost)
        then ucs_loop g goal pq' visited counter
        else
          let visited' = visited(current_city \<mapsto> current_cost) in
          if current_city = goal
          then \<lparr>path = p, success = True, total_cost = current_cost\<rparr>
          else
            let (pq'', counter') =
                  ucs_expand current_cost p visited' (get_weighted_neighbors g current_city)
                    pq' counter
            in ucs_loop g goal pq'' visited' counter')"
  by pat_completeness auto

definition all_weighted_neighbors :: "'a WeightedGraph_scheme \<Rightarrow> node set" where
  "all_weighted_neighbors g = \<Union> ((\<lambda>ns. fst ` set ns) ` snd ` set (weighted_adjacency g))"

lemma finite_all_weighted_neighbors: "finite (all_weighted_neighbors g)"
  by (simp add: all_weighted_neighbors_def)

lemma get_weighted_neighbors_subset:
  "fst ` set (get_weighted_neighbors g n) \<subseteq> all_weighted_neighbors g"
proof (cases "map_of (weighted_adjacency g) n")
  case None
  then show ?thesis by (simp add: get_weighted_neighbors_def dict_get_def)
next
  case (Some ns)
  then have "(n, ns) \<in> set (weighted_adjacency g)" by (rule map_of_SomeD)
  then have "fst ` set ns \<subseteq> all_weighted_neighbors g"
    unfolding all_weighted_neighbors_def by force
  then show ?thesis using Some by (simp add: get_weighted_neighbors_def dict_get_def)
qed

definition city :: "ucs_entry \<Rightarrow> node" where
  "city e = fst (snd (snd e))"

lemma ucs_expand_pushes:
  "ucs_expand c p visited ns pq counter = (pq', counter') \<Longrightarrow>
   \<exists>new. pq' = pq @ new \<and> (\<forall>e\<in>set new. city e \<in> fst ` set ns \<and> visited (city e) = None)"
proof (induction ns arbitrary: pq counter)
  case Nil
  then show ?case by simp
next
  case (Cons a ns)
  obtain n w where a: "a = (n, w)" by (cases a)
  show ?case
  proof (cases "visited n = None")
    case True
    then have "ucs_expand c p visited ns (pq @ [(c + w, counter + 1, n, p @ [n])]) (counter + 1)
               = (pq', counter')"
      using Cons.prems a by (simp add: heappush_def)
    from Cons.IH[OF this] obtain new where
      "pq' = (pq @ [(c + w, counter + 1, n, p @ [n])]) @ new"
      "\<forall>e\<in>set new. city e \<in> fst ` set ns \<and> visited (city e) = None" by blast
    then have "pq' = pq @ ((c + w, counter + 1, n, p @ [n]) # new) \<and>
          (\<forall>e\<in>set ((c + w, counter + 1, n, p @ [n]) # new).
              city e \<in> fst ` set (a # ns) \<and> visited (city e) = None)"
      using True a by (auto simp: city_def)
    then show ?thesis by blast
  next
    case False
    then have "ucs_expand c p visited ns pq counter = (pq', counter')"
      using Cons.prems a by auto
    from Cons.IH[OF this] show ?thesis by auto
  qed
qed

definition ucs_unvisited :: "'a WeightedGraph_scheme \<Rightarrow> ucs_entry list \<Rightarrow> (node \<rightharpoonup> int) \<Rightarrow> nat" where
  "ucs_unvisited g pq visited = card (city ` set pq \<union> all_weighted_neighbors g - dom visited)"

definition ucs_stale :: "ucs_entry list \<Rightarrow> (node \<rightharpoonup> int) \<Rightarrow> nat" where
  "ucs_stale pq visited = length (filter (\<lambda>e. city e \<in> dom visited) pq)"
lemma heappop_in: "pq \<noteq> [] \<Longrightarrow> fst (heappop pq) \<in> set pq"
  using Min_in[of "set pq"] by (simp add: heappop_def)

lemma heappop_le: "e \<in> set pq \<Longrightarrow> fst (heappop pq) \<le> e"
  unfolding heappop_def by simp

lemma heappop_rest_subset: "set (snd (heappop pq)) \<subseteq> set pq"
  using set_remove1_subset[of "Min (set pq)" pq] by (simp add: heappop_def)

lemma heappop_rest_other:
  "e \<in> set pq \<Longrightarrow> e \<noteq> fst (heappop pq) \<Longrightarrow> e \<in> set (snd (heappop pq))"
  unfolding heappop_def by simp

lemma ucs_stale_pop:
  assumes "pq \<noteq> []" "city (fst (heappop pq)) \<in> dom visited"
  shows "ucs_stale (snd (heappop pq)) visited < ucs_stale pq visited"
proof -
  let ?e = "fst (heappop pq)"
  have mem: "?e \<in> set (filter (\<lambda>e. city e \<in> dom visited) pq)"
    using assms heappop_in[of pq] by simp
  then have "0 < length (filter (\<lambda>e. city e \<in> dom visited) pq)"
    by (rule length_pos_if_in_set)
  then have "length (remove1 ?e (filter (\<lambda>e. city e \<in> dom visited) pq))
             < length (filter (\<lambda>e. city e \<in> dom visited) pq)"
    using mem by (simp add: length_remove1)
  moreover have "snd (heappop pq) = remove1 ?e pq" by (simp add: heappop_def)
  ultimately show ?thesis
    unfolding ucs_stale_def by (simp add: filter_remove1)
qed

lemma ucs_unvisited_mono:
  assumes "city ` set pq' \<subseteq> city ` set pq \<union> all_weighted_neighbors g" "dom visited \<subseteq> dom visited'"
  shows "ucs_unvisited g pq' visited' \<le> ucs_unvisited g pq visited"
  unfolding ucs_unvisited_def
  using assms by (intro card_mono) (auto simp: finite_all_weighted_neighbors)

lemma ucs_unvisited_less:
  assumes "city ` set pq' \<subseteq> city ` set pq \<union> all_weighted_neighbors g" "dom visited \<subseteq> dom visited'"
    and "x \<in> city ` set pq" "x \<notin> dom visited" "x \<in> dom visited'"
  shows "ucs_unvisited g pq' visited' < ucs_unvisited g pq visited"
proof -
  have "city ` set pq' \<union> all_weighted_neighbors g - dom visited'
        \<subseteq> (city ` set pq \<union> all_weighted_neighbors g - dom visited) - {x}"
    using assms by auto
  also have "\<dots> \<subset> city ` set pq \<union> all_weighted_neighbors g - dom visited"
    using assms by auto
  finally show ?thesis
    unfolding ucs_unvisited_def
    by (intro psubset_card_mono) (auto simp: finite_all_weighted_neighbors)
qed

lemma ucs_measure_skip:
  assumes "pq \<noteq> []" "city (fst (heappop pq)) \<in> dom visited"
  shows "ucs_unvisited g (snd (heappop pq)) visited \<le> ucs_unvisited g pq visited \<and>
         ucs_stale (snd (heappop pq)) visited < ucs_stale pq visited"
proof -
  have "city ` set (snd (heappop pq)) \<subseteq> city ` set pq \<union> all_weighted_neighbors g"
    using heappop_rest_subset[of pq] by auto
  then show ?thesis
    using ucs_unvisited_mono[of "snd (heappop pq)" pq g visited visited] ucs_stale_pop[OF assms]
    by simp
qed

lemma ucs_measure_expand:
  assumes ne: "pq \<noteq> []" and cur: "city (fst (heappop pq)) = cur"
    and ex: "ucs_expand c p (visited(cur \<mapsto> v)) (get_weighted_neighbors g cur)
               (snd (heappop pq)) counter = (pq'', counter')"
  shows "ucs_unvisited g pq'' (visited(cur \<mapsto> v)) < ucs_unvisited g pq visited \<or>
         (ucs_unvisited g pq'' (visited(cur \<mapsto> v)) \<le> ucs_unvisited g pq visited \<and>
          ucs_stale pq'' (visited(cur \<mapsto> v)) < ucs_stale pq visited)"
proof -
  from ucs_expand_pushes[OF ex] obtain new where
    pq'': "pq'' = snd (heappop pq) @ new" and
    new: "\<forall>e\<in>set new. city e \<in> fst ` set (get_weighted_neighbors g cur) \<and>
                       (visited(cur \<mapsto> v)) (city e) = None"
    by blast
  have "city ` set new \<subseteq> all_weighted_neighbors g"
    using new get_weighted_neighbors_subset[of g cur] by blast
  moreover have "city ` set (snd (heappop pq)) \<subseteq> city ` set pq"
    using heappop_rest_subset[of pq] by blast
  ultimately have sub: "city ` set pq'' \<subseteq> city ` set pq \<union> all_weighted_neighbors g"
    unfolding pq'' by auto
  have cin: "cur \<in> city ` set pq" using heappop_in[OF ne] cur by force
  show ?thesis
  proof (cases "cur \<in> dom visited")
    case False
    have "ucs_unvisited g pq'' (visited(cur \<mapsto> v)) < ucs_unvisited g pq visited"
      by (rule ucs_unvisited_less[OF sub _ cin False]) auto
    then show ?thesis ..
  next
    case True
    then have d: "dom (visited(cur \<mapsto> v)) = dom visited" by auto
    have "\<And>e. e \<in> set new \<Longrightarrow> city e \<notin> dom visited"
    proof -
      fix e assume "e \<in> set new"
      then have "(visited(cur \<mapsto> v)) (city e) = None" using new by blast
      then have "city e \<notin> dom (visited(cur \<mapsto> v))" by (simp only: domIff not_not)
      then show "city e \<notin> dom visited" unfolding d .
    qed
    then have "filter (\<lambda>e. city e \<in> dom visited) new = []"
      by (simp add: filter_empty_conv)
    then have "ucs_stale pq'' (visited(cur \<mapsto> v)) = ucs_stale (snd (heappop pq)) visited"
      unfolding ucs_stale_def d pq'' by simp
    moreover have "ucs_stale (snd (heappop pq)) visited < ucs_stale pq visited"
      using ucs_stale_pop[OF ne] cur True by simp
    moreover have "ucs_unvisited g pq'' (visited(cur \<mapsto> v)) \<le> ucs_unvisited g pq visited"
      by (rule ucs_unvisited_mono[OF sub]) auto
    ultimately show ?thesis by simp
  qed
qed

termination ucs_loop
proof (relation "measures [\<lambda>(g, goal, pq, visited, counter). ucs_unvisited g pq visited,
                           \<lambda>(g, goal, pq, visited, counter). ucs_stale pq visited]", goal_cases)
  case 1
  show ?case by simp
next
  case (2 g goal pq visited counter x current_cost x2 c x3 current_city p pq')
  then have e: "fst (heappop pq) = (current_cost, c, current_city, p)" by simp
  have "city (fst (heappop pq)) \<in> dom visited"
    using 2 unfolding e by (auto simp: city_def split: option.splits)
  from ucs_measure_skip[OF 2(1) this, of g] show ?case using 2 by auto
next
  case (3 g goal pq visited counter x current_cost x2 c x3 current_city p pq' visited' x4 pq'' counter')
  then have e: "fst (heappop pq) = (current_cost, c, current_city, p)" by simp
  have cur: "city (fst (heappop pq)) = current_city"
    unfolding e by (simp add: city_def)
  have "ucs_expand current_cost p (visited(current_city \<mapsto> current_cost))
          (get_weighted_neighbors g current_city) (snd (heappop pq)) counter = (pq'', counter')"
    using 3 by simp
  from ucs_measure_expand[OF 3(1) cur this] show ?case using 3 by auto
qed

declare ucs_loop.simps [simp del]

definition UniformCostSearch_search :: "'a WeightedGraph_scheme \<Rightarrow> node \<Rightarrow> node \<Rightarrow> UCSResult" where
  "UniformCostSearch_search g initial goal =
     (if map_of (weighted_adjacency g) initial = None
      then \<lparr>path = [], success = False, total_cost = 0\<rparr>
      else if map_of (weighted_adjacency g) goal = None
      then \<lparr>path = [], success = False, total_cost = 0\<rparr>
      else if initial = goal then \<lparr>path = [initial], success = True, total_cost = 0\<rparr>
      else ucs_loop g goal [(0, 0, initial, [initial])] Map.empty 0)"

text \<open>
  \<^verbatim>\<open>MultiGoalUCS.search\<close>. \<^verbatim>\<open>unvisited_goals\<close> is a Python \<^verbatim>\<open>set\<close>; the model holds its
  elements as the list in which \<^verbatim>\<open>for goal in unvisited_goals\<close> yields them. Removing an
  element leaves the others in their order. \<open>select_best\<close> is that \<^verbatim>\<open>for\<close> loop: its
  state is \<^verbatim>\<open>(best_goal, best_result)\<close>, \<^verbatim>\<open>None\<close> at first, and \<^verbatim>\<open>best_cost\<close> is the
  \<^verbatim>\<open>total_cost\<close> of \<^verbatim>\<open>best_result\<close> (infinity while there is none). The returned dict has
  the keys \<^verbatim>\<open>complete_path\<close>, \<^verbatim>\<open>total_cost\<close>, \<^verbatim>\<open>visit_order\<close> and \<^verbatim>\<open>success\<close>; the record
  names the second \<open>route_cost\<close> and the last \<open>all_visited\<close>, apart from the fields of
  \<^verbatim>\<open>UCSResult\<close>.
\<close>

record MultiGoalResult =
  complete_path :: "node list"
  route_cost :: int
  visit_order :: "node list"
  all_visited :: bool

fun select_best ::
  "'a WeightedGraph_scheme \<Rightarrow> node \<Rightarrow> node list \<Rightarrow> (node \<times> UCSResult) option \<Rightarrow>
   (node \<times> UCSResult) option" where
  "select_best g current_location [] best = best"
| "select_best g current_location (goal # goals) best =
     (let result = UniformCostSearch_search g current_location goal in
      if success result \<and>
         (case best of None \<Rightarrow> True | Some (best_goal, best_result) \<Rightarrow>
            total_cost result < total_cost best_result)
      then select_best g current_location goals (Some (goal, result))
      else select_best g current_location goals best)"

lemma select_best_in:
  "select_best g cur goals best = Some (bg, br) \<Longrightarrow>
   bg \<in> set goals \<or> best = Some (bg, br)"
  by (induction goals arbitrary: best) (auto simp: Let_def split: if_splits)

function multi_goal_loop ::
  "'a WeightedGraph_scheme \<Rightarrow> node list \<Rightarrow> node \<Rightarrow> node list \<Rightarrow> int \<Rightarrow> node list \<Rightarrow>
   MultiGoalResult" where
  "multi_goal_loop g unvisited_goals current_location cpath cost order =
     (if unvisited_goals = [] then
        \<lparr>complete_path = cpath, route_cost = cost, visit_order = order, all_visited = True\<rparr>
      else
        case select_best g current_location unvisited_goals None of
          None \<Rightarrow>
            \<lparr>complete_path = cpath, route_cost = cost, visit_order = order,
             all_visited = False\<rparr>
        | Some (best_goal, best_result) \<Rightarrow>
            multi_goal_loop g (remove1 best_goal unvisited_goals) best_goal
              (cpath @ drop 1 (path best_result))
              (cost + total_cost best_result)
              (order @ [best_goal]))"
  by pat_completeness auto
termination
proof (relation "measure (\<lambda>(g, unvisited_goals, rest). length unvisited_goals)", goal_cases)
  case 1
  show ?case by simp
next
  case (2 g unvisited_goals current_location cpath cost order x2 best_goal best_result)
  then have "best_goal \<in> set unvisited_goals"
    using select_best_in[of g current_location unvisited_goals None best_goal best_result]
    by simp
  then have "0 < length unvisited_goals" by (rule length_pos_if_in_set)
  then show ?case using \<open>best_goal \<in> set unvisited_goals\<close> by (simp add: length_remove1)
qed

declare multi_goal_loop.simps [simp del]

definition multi_goal_run :: "'a WeightedGraph_scheme \<Rightarrow> node \<Rightarrow> node list \<Rightarrow> MultiGoalResult" where
  "multi_goal_run g initial unvisited_goals =
     multi_goal_loop g unvisited_goals initial [initial] 0 []"

text \<open>
  The language does not fix the order in which a \<^verbatim>\<open>set\<close> of strings is iterated (it
  follows the strings' hashes, which are salted per process). \<^verbatim>\<open>set(goals)\<close> yields each
  distinct goal once, in some order; the search may return what any such order gives.
\<close>

inductive MultiGoalUCS_search ::
  "'a WeightedGraph_scheme \<Rightarrow> node \<Rightarrow> node list \<Rightarrow> MultiGoalResult \<Rightarrow> bool" where
  "distinct unvisited_goals \<Longrightarrow> set unvisited_goals = set goals \<Longrightarrow>
   MultiGoalUCS_search g initial goals (multi_goal_run g initial unvisited_goals)"

section \<open>A* search (astar.py)\<close>

text \<open>
  \<^verbatim>\<open>AStarSearch.search\<close> on a weighted graph and a dict of heuristic values. An entry
  is \<^verbatim>\<open>(f, g, counter, city, path)\<close>. \<open>astar_expand\<close> is the \<^verbatim>\<open>for\<close> loop, which updates
  \<^verbatim>\<open>g_scores\<close> as it goes. With a negative cycle the \<^verbatim>\<open>while pq\<close> loop need not end, so
  the loop returns an option and \<open>None\<close> stands for not returning.
\<close>

type_synonym astar_entry = "int \<times> int \<times> nat \<times> node \<times> node list"

definition get_heuristic :: "(node \<times> int) list \<Rightarrow> node \<Rightarrow> int" where
  "get_heuristic heuristics n = (case map_of heuristics n of None \<Rightarrow> 0 | Some h \<Rightarrow> h)"

fun astar_expand ::
  "(node \<times> int) list \<Rightarrow> int \<Rightarrow> node list \<Rightarrow> (node \<times> int) list \<Rightarrow>
   astar_entry list \<Rightarrow> (node \<rightharpoonup> int) \<Rightarrow> nat \<Rightarrow>
   astar_entry list \<times> (node \<rightharpoonup> int) \<times> nat" where
  "astar_expand heuristics g_value p [] pq g_scores counter = (pq, g_scores, counter)"
| "astar_expand heuristics g_value p ((neighbor, edge_cost) # ns) pq g_scores counter =
     (let tentative_g = g_value + edge_cost in
      if (case g_scores neighbor of None \<Rightarrow> True | Some s \<Rightarrow> tentative_g < s) then
        (let h_neighbor = get_heuristic heuristics neighbor;
             f_neighbor = tentative_g + h_neighbor;
             new_path = p @ [neighbor]
         in astar_expand heuristics g_value p ns
              (heappush pq (f_neighbor, tentative_g, counter + 1, neighbor, new_path))
              (g_scores(neighbor \<mapsto> tentative_g)) (counter + 1))
      else astar_expand heuristics g_value p ns pq g_scores counter)"

partial_function (option) astar_loop ::
  "'a WeightedGraph_scheme \<Rightarrow> (node \<times> int) list \<Rightarrow> node \<Rightarrow> astar_entry list \<Rightarrow>
   (node \<rightharpoonup> int) \<Rightarrow> nat \<Rightarrow> AStarResult option" where
  "astar_loop g heuristics goal pq g_scores counter =
     (if pq = [] then Some \<lparr>path = [], success = False, total_cost = 0\<rparr>
      else
        case heappop pq of ((f_value, g_value, c, current, p), pq') \<Rightarrow>
          if (case g_scores current of None \<Rightarrow> False | Some s \<Rightarrow> g_value > s)
          then astar_loop g heuristics goal pq' g_scores counter
          else if current = goal
          then Some \<lparr>path = p, success = True, total_cost = g_value\<rparr>
          else
            case astar_expand heuristics g_value p (get_weighted_neighbors g current)
                   pq' g_scores counter of
              (pq'', g_scores', counter') \<Rightarrow>
                astar_loop g heuristics goal pq'' g_scores' counter')"

declare astar_loop.simps [code]

definition AStarSearch_search ::
  "'a WeightedGraph_scheme \<Rightarrow> (node \<times> int) list \<Rightarrow> node \<Rightarrow> node \<Rightarrow> AStarResult option" where
  "AStarSearch_search g heuristics initial goal =
     (if map_of (weighted_adjacency g) initial = None
      then Some \<lparr>path = [], success = False, total_cost = 0\<rparr>
      else if map_of (weighted_adjacency g) goal = None
      then Some \<lparr>path = [], success = False, total_cost = 0\<rparr>
      else if initial = goal then Some \<lparr>path = [initial], success = True, total_cost = 0\<rparr>
      else astar_loop g heuristics goal
             [(get_heuristic heuristics initial, 0, 0, initial, [initial])]
             [initial \<mapsto> 0] 0)"

section \<open>Paths, routes and loop invariants\<close>

text \<open>
  The notions in which the properties below are stated, and the invariants of the loops.
\<close>

text \<open>
  The effect of \<^verbatim>\<open>add_weighted_edge\<close> on the lists that \<^verbatim>\<open>get_weighted_neighbors\<close> returns,
  as a function of those lists alone.
\<close>

definition wstep ::
  "(node \<Rightarrow> (node \<times> int) list) \<Rightarrow> node \<Rightarrow> node \<Rightarrow> int \<Rightarrow> node \<Rightarrow> (node \<times> int) list" where
  "wstep W a b c =
     (let W1 = (if b \<in> fst ` set (W a) then W else W(a := W a @ [(b, c)]))
      in if a \<in> fst ` set (W1 b) then W1 else W1(b := W1 b @ [(a, c)]))"

definition wsym :: "(node \<Rightarrow> (node \<times> int) list) \<Rightarrow> bool" where
  "wsym W = (\<forall>a b c. (b, c) \<in> set (W a) \<longleftrightarrow> (a, c) \<in> set (W b))"

definition wdist :: "(node \<Rightarrow> (node \<times> int) list) \<Rightarrow> bool" where
  "wdist W = (\<forall>a. distinct (map fst (W a)))"

text \<open>
  A path of the unweighted graph from \<open>s\<close> to \<open>t\<close> is a non-empty list of nodes that
  starts with \<open>s\<close>, ends with \<open>t\<close>, and in which each node is listed by
  \<^verbatim>\<open>get_neighbors\<close> of the one before it. It has one edge less than it has nodes.
\<close>

fun walk :: "(node \<Rightarrow> node list) \<Rightarrow> node list \<Rightarrow> bool" where
  "walk nbrs [] = False"
| "walk nbrs [x] = True"
| "walk nbrs (x # y # r) = (y \<in> set (nbrs x) \<and> walk nbrs (y # r))"

definition is_path :: "'a Graph_scheme \<Rightarrow> node \<Rightarrow> node list \<Rightarrow> node \<Rightarrow> bool" where
  "is_path g s p t = (walk (get_neighbors g) p \<and> hd p = s \<and> last p = t)"

text \<open>
  The loop invariant, for a search from \<open>s\<close>: the queued paths are paths of the graph,
  each the shortest to its node, in non-decreasing length and at most one longer than
  the first; every node that a path no longer than the first queued one reaches is
  visited; a visited node that is not queued has all its neighbours visited.
\<close>

definition bfs_inv ::
  "'a Graph_scheme \<Rightarrow> node \<Rightarrow> node \<Rightarrow> (node \<times> node list) list \<Rightarrow> node set \<Rightarrow> bool" where
  "bfs_inv g s goal queue visited \<longleftrightarrow>
     s \<in> visited \<and> goal \<notin> visited \<and>
     (\<forall>(n, p) \<in> set queue. is_path g s p n \<and> n \<in> visited \<and>
                            (\<forall>p'. is_path g s p' n \<longrightarrow> length p \<le> length p') \<and>
                            length p \<le> Suc (length (snd (hd queue)))) \<and>
     sorted (map (\<lambda>e. length (snd e)) queue) \<and>
     (queue \<noteq> [] \<longrightarrow>
        (\<forall>x p'. is_path g s p' x \<and> length p' \<le> length (snd (hd queue)) \<longrightarrow> x \<in> visited)) \<and>
     (\<forall>v\<in>visited. v \<notin> fst ` set queue \<longrightarrow> set (get_neighbors g v) \<subseteq> visited)"

text \<open>A square: two routes of two edges each from \<open>A\<close> to \<open>C\<close>.\<close>

definition g1 :: Graph where
  "g1 = add_edge (add_edge (add_edge (add_edge Graph_init ''A'' ''B'') ''B'' ''C'') ''A'' ''D'') ''D'' ''C''"

text \<open>
  A route of the weighted graph from \<open>s\<close> is a list of hops \<open>(node, cost)\<close>, each taken
  from the list that \<^verbatim>\<open>get_weighted_neighbors\<close> returns for the node before it; its nodes
  are \<open>s # map fst hs\<close> and its cost is the sum of the costs of its hops. Stating a
  route by its hops names the cost of every edge it uses.
\<close>

fun wwalk :: "(node \<Rightarrow> (node \<times> int) list) \<Rightarrow> node \<Rightarrow> (node \<times> int) list \<Rightarrow> bool" where
  "wwalk W x [] = True"
| "wwalk W x ((y, w) # hs) = ((y, w) \<in> set (W x) \<and> wwalk W y hs)"

definition hops_cost :: "(node \<times> int) list \<Rightarrow> int" where
  "hops_cost hs = sum_list (map snd hs)"

definition is_route ::
  "'a WeightedGraph_scheme \<Rightarrow> node \<Rightarrow> (node \<times> int) list \<Rightarrow> node \<Rightarrow> bool" where
  "is_route g s hs t = (wwalk (get_weighted_neighbors g) s hs \<and> last (s # map fst hs) = t)"

definition nonneg_costs :: "'a WeightedGraph_scheme \<Rightarrow> bool" where
  "nonneg_costs g = list_all (\<lambda>(n, ns). list_all (\<lambda>(m, w). 0 \<le> w) ns) (weighted_adjacency g)"

text \<open>
  The loop invariant, for a search from \<open>s\<close>: the goal is not finalised; every queued entry
  carries a route of the graph, its nodes and its cost; for a finalised node, its cost is
  at most that of every queued entry and of every route to it, and each neighbour that is
  not finalised has a queued entry that costs no more than going through the node; the
  start is finalised or queued at cost 0.
\<close>

definition ucs_inv ::
  "'a WeightedGraph_scheme \<Rightarrow> node \<Rightarrow> node \<Rightarrow> ucs_entry list \<Rightarrow> (node \<rightharpoonup> int) \<Rightarrow> bool" where
  "ucs_inv g s goal pq visited \<longleftrightarrow>
     goal \<notin> dom visited \<and>
     (\<forall>(c, k, n, p)\<in>set pq. \<exists>hs. is_route g s hs n \<and> p = s # map fst hs \<and> c = hops_cost hs) \<and>
     (\<forall>x d. visited x = Some d \<longrightarrow>
        (\<forall>e\<in>set pq. d \<le> fst e) \<and>
        (\<forall>hs. is_route g s hs x \<longrightarrow> d \<le> hops_cost hs) \<and>
        (\<forall>(y, w)\<in>set (get_weighted_neighbors g x). y \<notin> dom visited \<longrightarrow>
           (\<exists>e\<in>set pq. city e = y \<and> fst e \<le> d + w))) \<and>
     (s \<in> dom visited \<or> (\<exists>e\<in>set pq. city e = s \<and> fst e \<le> 0))"

text \<open>
  What a search from \<open>s\<close> to \<open>goal\<close> returns: on success a route to the goal with its
  nodes and cost, no dearer than any route; on failure the empty path, and there is no
  route.
\<close>

definition ucs_post :: "'a WeightedGraph_scheme \<Rightarrow> node \<Rightarrow> node \<Rightarrow> UCSResult \<Rightarrow> bool" where
  "ucs_post g s goal r \<longleftrightarrow>
     (success r \<longrightarrow>
        (\<exists>hs. is_route g s hs goal \<and> path r = s # map fst hs \<and> total_cost r = hops_cost hs) \<and>
        (\<forall>hs. is_route g s hs goal \<longrightarrow> total_cost r \<le> hops_cost hs)) \<and>
     (\<not> success r \<longrightarrow> path r = [] \<and> (\<forall>hs. \<not> is_route g s hs goal))"

text \<open>A triangle with a dear direct edge, and a separate edge.\<close>

definition g2 :: WeightedGraph where
  "g2 = build [(''A'', ''B'', 3), (''A'', ''C'', 10), (''B'', ''C'', 2), (''D'', ''E'', 1)]"

text \<open>
  The fields of an A* entry, and a heuristics dict all of whose values are 0 (so that
  \<^verbatim>\<open>get_heuristic\<close> is 0 for every node, listed or not).
\<close>

definition acity :: "astar_entry \<Rightarrow> node" where
  "acity e = fst (snd (snd (snd e)))"

definition gval :: "astar_entry \<Rightarrow> int" where
  "gval e = fst (snd e)"

definition zero_heuristic :: "(node \<times> int) list \<Rightarrow> bool" where
  "zero_heuristic heuristics = list_all (\<lambda>(n, h). h = 0) heuristics"

text \<open>
  A node is closed at cost \<open>d\<close> when it is not the goal and every neighbour has a
  \<^verbatim>\<open>g_scores\<close> entry no greater than \<open>d\<close> plus the edge. The loop invariant, for a search
  from \<open>s\<close> with a zero heuristic: the start has a score at most 0; every queued entry
  has \<open>f = g\<close> and carries a route of the graph, its nodes and its cost; every scored
  node has a non-negative score and is either queued with exactly that score or closed
  at it; all scored nodes are the start or some node's neighbour.
\<close>

definition closed_node ::
  "'a WeightedGraph_scheme \<Rightarrow> node \<Rightarrow> (node \<rightharpoonup> int) \<Rightarrow> node \<Rightarrow> int \<Rightarrow> bool" where
  "closed_node g goal g_scores x d \<longleftrightarrow>
     x \<noteq> goal \<and>
     (\<forall>(y, w)\<in>set (get_weighted_neighbors g x). \<exists>d'. g_scores y = Some d' \<and> d' \<le> d + w)"

definition astar_inv ::
  "'a WeightedGraph_scheme \<Rightarrow> node \<Rightarrow> node \<Rightarrow> astar_entry list \<Rightarrow> (node \<rightharpoonup> int) \<Rightarrow> bool" where
  "astar_inv g s goal pq g_scores \<longleftrightarrow>
     (\<exists>d. g_scores s = Some d \<and> d \<le> 0) \<and>
     (\<forall>(f, gv, k, n, p)\<in>set pq.
        f = gv \<and> (\<exists>hs. is_route g s hs n \<and> p = s # map fst hs \<and> gv = hops_cost hs)) \<and>
     (\<forall>x d. g_scores x = Some d \<longrightarrow>
        0 \<le> d \<and>
        ((\<exists>e\<in>set pq. acity e = x \<and> gval e = d) \<or> closed_node g goal g_scores x d)) \<and>
     dom g_scores \<subseteq> insert s (all_weighted_neighbors g)"

text \<open>
  What decreases when the \<^verbatim>\<open>for\<close> loop pushes: the number of unscored nodes, then the
  sum of the scores. With non-negative costs this bounds the pushes, so the loop returns.
\<close>

definition astar_rank :: "node set \<Rightarrow> (node \<rightharpoonup> int) \<Rightarrow> nat \<times> nat" where
  "astar_rank U g_scores = (card (U - dom g_scores), (\<Sum>x\<in>dom g_scores. nat (the (g_scores x))))"

text \<open>
  The effect of the \<^verbatim>\<open>for\<close> loop over the neighbours \<open>ns\<close> of a node popped at cost \<open>gv\<close>
  with path \<open>p\<close>: the entries it pushed and the scores it left.
\<close>

definition expand_ok ::
  "node set \<Rightarrow> int \<Rightarrow> node list \<Rightarrow> (node \<times> int) list \<Rightarrow> (node \<rightharpoonup> int) \<Rightarrow>
   astar_entry list \<Rightarrow> (node \<rightharpoonup> int) \<Rightarrow> bool" where
  "expand_ok U gv p ns gs new gs' \<longleftrightarrow>
     (\<forall>e\<in>set new. \<exists>y w k. e = (gv + w, gv + w, k, y, p @ [y]) \<and> (y, w) \<in> set ns) \<and>
     (\<forall>x. gs' x = gs x \<or> (\<exists>e\<in>set new. acity e = x \<and> gs' x = Some (gval e))) \<and>
     (\<forall>x d. gs x = Some d \<longrightarrow> (\<exists>d'. gs' x = Some d' \<and> d' \<le> d)) \<and>
     (\<forall>(y, w)\<in>set ns. \<exists>d'. gs' y = Some d' \<and> d' \<le> gv + w) \<and>
     dom gs' \<subseteq> U \<and> (\<forall>x d. gs' x = Some d \<longrightarrow> 0 \<le> d) \<and>
     ((new = [] \<and> gs' = gs) \<or> astar_rank U gs' < astar_rank U gs)"

text \<open>A route that no route between the same nodes undercuts.\<close>

definition cheapest_route ::
  "'a WeightedGraph_scheme \<Rightarrow> node \<Rightarrow> (node \<times> int) list \<Rightarrow> node \<Rightarrow> bool" where
  "cheapest_route g s hs t \<longleftrightarrow>
     is_route g s hs t \<and> (\<forall>hs'. is_route g s hs' t \<longrightarrow> hops_cost hs \<le> hops_cost hs')"









section \<open>Properties of the graph model\<close>

lemma dict_get_update:
  "dict_get (AList.update k v d) x = (if x = k then v else dict_get d x)"
  by (simp add: dict_get_def update_conv')

lemma dict_get_new_key:
  assumes "map_of d k = None" shows "dict_get (AList.update k [] d) = dict_get d"
proof
  fix x
  from assms have "dict_get d k = []" by (simp add: dict_get_def)
  then show "dict_get (AList.update k [] d) x = dict_get d x"
    by (simp add: dict_get_update)
qed

lemma list_ex_neighbor: "list_ex (\<lambda>(neighbor, _). neighbor = n) l \<longleftrightarrow> n \<in> fst ` set l"
  by (induction l) auto

lemma weighted_adjacency_add_edge [simp]:
  "weighted_adjacency (add_edge g a b) = weighted_adjacency g"
  by (simp add: add_edge_def add_node_def Let_def)

lemma get_weighted_neighbors_add_weighted_edge:
  "get_weighted_neighbors (add_weighted_edge g a b c) = wstep (get_weighted_neighbors g) a b c"
proof -
  define w0 where "w0 = weighted_adjacency g"
  define w1 where "w1 = (if map_of w0 a = None then AList.update a [] w0 else w0)"
  define w2 where "w2 = (if map_of w1 b = None then AList.update b [] w1 else w1)"
  have g1: "dict_get w1 = dict_get w0" unfolding w1_def by (simp add: dict_get_new_key)
  have g2: "dict_get w2 = dict_get w0" unfolding w2_def g1[symmetric] by (simp add: dict_get_new_key)
  show ?thesis
    unfolding add_weighted_edge_def get_weighted_neighbors_def wstep_def Let_def
    apply (simp only: weighted_adjacency_add_edge w0_def[symmetric] w1_def[symmetric] w2_def[symmetric])
    apply (rule ext)
    apply (simp add: list_ex_neighbor dict_get_update g2 fun_upd_def)
    done
qed

lemma wsym_neighbor:
  assumes "wsym W"
  shows "b \<in> fst ` set (W a) \<longleftrightarrow> a \<in> fst ` set (W b)"
proof -
  have "\<And>x y. y \<in> fst ` set (W x) \<Longrightarrow> x \<in> fst ` set (W y)"
  proof -
    fix x y assume "y \<in> fst ` set (W x)"
    then obtain c where "(y, c) \<in> set (W x)" by force
    then have "(x, c) \<in> set (W y)" using assms unfolding wsym_def by blast
    then show "x \<in> fst ` set (W y)" by force
  qed
  then show ?thesis by blast
qed

lemma wstep_present:
  assumes "wsym W" "b \<in> fst ` set (W a)"
  shows "wstep W a b c = W"
proof -
  have "a \<in> fst ` set (W b)" using assms wsym_neighbor[OF assms(1), of b a] by simp
  then show ?thesis using assms(2) by (simp add: wstep_def)
qed

lemma wstep_absent:
  assumes "wsym W" "b \<notin> fst ` set (W a)"
  shows "wstep W a b c x =
           (if x = a then W a @ [(b, c)] else if x = b then W b @ [(a, c)] else W x)"
proof -
  have nb: "a \<notin> fst ` set (W b)" using assms wsym_neighbor[OF assms(1), of b a] by simp
  show ?thesis
  proof (cases "a = b")
    case True
    then show ?thesis using assms(2) by (simp add: wstep_def)
  next
    case False
    then show ?thesis using assms(2) nb by (simp add: wstep_def)
  qed
qed

lemma wstep_absent_mem:
  assumes "wsym W" "b \<notin> fst ` set (W a)"
  shows "(y, d) \<in> set (wstep W a b c x) \<longleftrightarrow>
           (y, d) \<in> set (W x) \<or> (x = a \<and> y = b \<and> d = c) \<or> (x = b \<and> y = a \<and> d = c)"
  unfolding wstep_absent[OF assms] by auto

lemma wstep_wsym:
  assumes "wsym W"
  shows "wsym (wstep W a b c)"
proof (cases "b \<in> fst ` set (W a)")
  case True
  then show ?thesis using assms by (simp add: wstep_present)
next
  case False
  have *: "\<And>x y d. (y, d) \<in> set (W x) \<longleftrightarrow> (x, d) \<in> set (W y)"
    using assms unfolding wsym_def by blast
  show ?thesis
    unfolding wsym_def wstep_absent_mem[OF assms False] using * by blast
qed

lemma wstep_wdist:
  assumes "wsym W" "wdist W"
  shows "wdist (wstep W a b c)"
proof (cases "b \<in> fst ` set (W a)")
  case True
  then show ?thesis using assms by (simp add: wstep_present)
next
  case False
  have nb: "a \<notin> fst ` set (W b)" using assms False wsym_neighbor[OF assms(1), of b a] by simp
  have d: "\<And>x. distinct (map fst (W x))" using assms(2) unfolding wdist_def by blast
  show ?thesis
    unfolding wdist_def wstep_absent[OF assms(1) False]
    using d False nb by simp
qed

lemma build_snoc:
  "build (calls @ [(a, b, c)]) = add_weighted_edge (build calls) a b c"
  by (simp add: build_def)

lemma build_invariant:
  "wsym (get_weighted_neighbors (build calls)) \<and> wdist (get_weighted_neighbors (build calls))"
proof (induction calls rule: rev_induct)
  case Nil
  show ?case
    by (simp add: build_def WeightedGraph_init_def get_weighted_neighbors_def dict_get_def
                  wsym_def wdist_def)
next
  case (snoc x calls)
  obtain a b c where x: "x = (a, b, c)" by (cases x)
  show ?case
    unfolding x build_snoc get_weighted_neighbors_add_weighted_edge
    using snoc.IH by (simp add: wstep_wsym wstep_wdist)
qed

lemma wstep_has_edge:
  assumes "wsym W"
  shows "b \<in> fst ` set (wstep W a b c a)"
proof (cases "b \<in> fst ` set (W a)")
  case True
  then show ?thesis using assms by (simp add: wstep_present)
next
  case False
  show ?thesis unfolding wstep_absent[OF assms False] by simp
qed

lemma wstep_twice:
  assumes "wsym W"
  shows "wstep (wstep W a b c) a b c' = wstep W a b c"
    and "wstep (wstep W a b c) b a c' = wstep W a b c"
proof -
  have s: "wsym (wstep W a b c)" using assms by (rule wstep_wsym)
  have e: "b \<in> fst ` set (wstep W a b c a)" using assms by (rule wstep_has_edge)
  show "wstep (wstep W a b c) a b c' = wstep W a b c"
    using s e by (rule wstep_present)
  have "a \<in> fst ` set (wstep W a b c b)" using e wsym_neighbor[OF s, of b a] by simp
  with s show "wstep (wstep W a b c) b a c' = wstep W a b c"
    by (rule wstep_present)
qed

text \<open>
  C6. In a weighted graph built by any sequence of \<^verbatim>\<open>add_weighted_edge\<close> calls:
  \<open>(b, c)\<close> is listed under \<open>a\<close> exactly when \<open>(a, c)\<close> is listed under \<open>b\<close>; no node
  lists a neighbour twice; and adding an edge between two nodes that already have one,
  with any cost and in either direction, changes no list that
  \<^verbatim>\<open>get_weighted_neighbors\<close> returns.
\<close>

theorem weighted_adjacency_symmetric_idempotent:
  "((b, c) \<in> set (get_weighted_neighbors (build calls) a) \<longleftrightarrow>
      (a, c) \<in> set (get_weighted_neighbors (build calls) b)) \<and>
   distinct (map fst (get_weighted_neighbors (build calls) a)) \<and>
   (b \<in> fst ` set (get_weighted_neighbors (build calls) a) \<longrightarrow>
      get_weighted_neighbors (add_weighted_edge (build calls) a b c') =
      get_weighted_neighbors (build calls)) \<and>
   get_weighted_neighbors (add_weighted_edge (add_weighted_edge (build calls) a b c) a b c') =
     get_weighted_neighbors (add_weighted_edge (build calls) a b c) \<and>
   get_weighted_neighbors (add_weighted_edge (add_weighted_edge (build calls) a b c) b a c') =
     get_weighted_neighbors (add_weighted_edge (build calls) a b c)"
proof -
  have s: "wsym (get_weighted_neighbors (build calls))"
    and d: "wdist (get_weighted_neighbors (build calls))"
    using build_invariant[of calls] by simp_all
  have 1: "(b, c) \<in> set (get_weighted_neighbors (build calls) a) \<longleftrightarrow>
      (a, c) \<in> set (get_weighted_neighbors (build calls) b)"
    using s unfolding wsym_def by blast
  have 2: "distinct (map fst (get_weighted_neighbors (build calls) a))"
    using d unfolding wdist_def by blast
  have 3: "b \<in> fst ` set (get_weighted_neighbors (build calls) a) \<longrightarrow>
      get_weighted_neighbors (add_weighted_edge (build calls) a b c') =
      get_weighted_neighbors (build calls)"
    unfolding get_weighted_neighbors_add_weighted_edge using s by (simp add: wstep_present)
  have 4: "get_weighted_neighbors (add_weighted_edge (add_weighted_edge (build calls) a b c) a b c') =
     get_weighted_neighbors (add_weighted_edge (build calls) a b c)"
    unfolding get_weighted_neighbors_add_weighted_edge using s by (rule wstep_twice)
  have 5: "get_weighted_neighbors (add_weighted_edge (add_weighted_edge (build calls) a b c) b a c') =
     get_weighted_neighbors (add_weighted_edge (build calls) a b c)"
    unfolding get_weighted_neighbors_add_weighted_edge using s by (rule wstep_twice)
  from 1 2 3 4 5 show ?thesis by blast
qed

theorem weighted_adjacency_symmetric_idempotent_witness:
  "''B'' \<in> fst ` set (get_weighted_neighbors (build [(''A'', ''B'', 3)]) ''A'') \<and>
   get_weighted_neighbors (add_weighted_edge (build [(''A'', ''B'', 3)]) ''A'' ''B'' 5) ''A''
     = [(''B'', 3)] \<and>
   get_weighted_neighbors (add_weighted_edge (build [(''A'', ''B'', 3)]) ''A'' ''B'' 5) ''B''
     = [(''A'', 3)]"
proof -
  have a: "get_weighted_neighbors (build [(''A'', ''B'', 3)]) ''A'' = [(''B'', 3)]"
    by code_simp
  have b: "get_weighted_neighbors (build [(''A'', ''B'', 3)]) ''B'' = [(''A'', 3)]"
    by code_simp
  have m: "''B'' \<in> fst ` set (get_weighted_neighbors (build [(''A'', ''B'', 3)]) ''A'')"
    unfolding a by simp
  from weighted_adjacency_symmetric_idempotent[of "''B''" _ "[(''A'', ''B'', 3)]" "''A''" 5] m
  have "get_weighted_neighbors (add_weighted_edge (build [(''A'', ''B'', 3)]) ''A'' ''B'' 5) =
      get_weighted_neighbors (build [(''A'', ''B'', 3)])" by blast
  then show ?thesis using a b m by simp
qed

section \<open>Searches that return before their loop\<close>

lemma dom_map_of_update:
  "dom (map_of (AList.update k v d)) = insert k (dom (map_of d))"
  by (simp add: update_conv')

lemma dom_adjacency_add_node:
  "dom (map_of (adjacency_list (add_node g n))) = insert n (dom (map_of (adjacency_list g)))"
proof (cases "map_of (adjacency_list g) n")
  case None
  then show ?thesis by (simp add: add_node_def dom_map_of_update)
next
  case (Some a)
  then have "n \<in> dom (map_of (adjacency_list g))" by (simp only: domIff) simp
  then show ?thesis using Some by (simp add: add_node_def insert_absorb)
qed

lemma dom_adjacency_add_edge:
  "dom (map_of (adjacency_list (add_edge g a b))) = insert a (insert b (dom (map_of (adjacency_list g))))"
proof -
  define g1 where "g1 = add_node (add_node g a) b"
  have d1: "dom (map_of (adjacency_list g1)) = insert a (insert b (dom (map_of (adjacency_list g))))"
    unfolding g1_def by (simp add: dom_adjacency_add_node insert_commute)
  show ?thesis
    unfolding add_edge_def g1_def[symmetric] Let_def
    using d1 by (auto simp: dom_map_of_update)
qed

lemma dom_weighted_add_weighted_edge:
  "dom (map_of (weighted_adjacency (add_weighted_edge g a b c)))
     = insert a (insert b (dom (map_of (weighted_adjacency g))))"
proof -
  define w0 where "w0 = weighted_adjacency g"
  define w1 where "w1 = (if map_of w0 a = None then AList.update a [] w0 else w0)"
  define w2 where "w2 = (if map_of w1 b = None then AList.update b [] w1 else w1)"
  have d1: "dom (map_of w1) = insert a (dom (map_of w0))"
  proof (cases "map_of w0 a")
    case None
    then show ?thesis by (simp add: w1_def dom_map_of_update)
  next
    case (Some l)
    then have "a \<in> dom (map_of w0)" by (simp only: domIff) simp
    then show ?thesis using Some by (simp add: w1_def insert_absorb)
  qed
  have d2: "dom (map_of w2) = insert b (dom (map_of w1))"
  proof (cases "map_of w1 b")
    case None
    then show ?thesis by (simp add: w2_def dom_map_of_update)
  next
    case (Some l)
    then have "b \<in> dom (map_of w1)" by (simp only: domIff) simp
    then show ?thesis using Some by (simp add: w2_def insert_absorb)
  qed
  show ?thesis
    unfolding add_weighted_edge_def Let_def
    apply (simp only: weighted_adjacency_add_edge w0_def[symmetric] w1_def[symmetric] w2_def[symmetric])
    using d1 d2 by (simp add: dom_map_of_update insert_commute)
qed

lemma adjacency_add_weighted_edge:
  "adjacency_list (add_weighted_edge g a b c) = adjacency_list (add_edge g a b)"
  by (simp add: add_weighted_edge_def Let_def)

lemma build_same_nodes:
  "dom (map_of (adjacency_list (build calls))) = dom (map_of (weighted_adjacency (build calls)))"
proof (induction calls rule: rev_induct)
  case Nil
  show ?case by (simp add: build_def WeightedGraph_init_def)
next
  case (snoc x calls)
  obtain a b c where x: "x = (a, b, c)" by (cases x)
  show ?case
    unfolding x build_snoc dom_weighted_add_weighted_edge adjacency_add_weighted_edge
      dom_adjacency_add_edge
    using snoc.IH by simp
qed

lemma lower_names:
  "lower ''bfs'' = ''bfs''" "lower ''dfs'' = ''dfs''" "lower ''BFS'' = ''bfs''" "lower ''Dfs'' = ''dfs''"
  by code_simp+

text \<open>
  C8. When the start or the goal is not a key of the adjacency the algorithm reads
  (\<^verbatim>\<open>adjacency_list\<close> for BFS and DFS, \<^verbatim>\<open>weighted_adjacency\<close> for UCS and A*), the search
  returns the failed result with the empty path; the model has no error value on this
  branch because the source raises nothing there, also through the dispatching
  \<^verbatim>\<open>search\<close> of BFS and DFS. In a graph built by \<^verbatim>\<open>add_weighted_edge\<close> calls the two
  adjacencies have the same keys.
\<close>

theorem unknown_endpoint_fails:
  "(map_of (adjacency_list g) start = None \<or> map_of (adjacency_list g) goal = None \<longrightarrow>
      breadth_first_search g start goal = \<lparr>path = [], success = False\<rparr> \<and>
      depth_first_search g start goal = \<lparr>path = [], success = False\<rparr> \<and>
      TravelEthiopiaSearch_search g start goal ''bfs'' = Inr \<lparr>path = [], success = False\<rparr> \<and>
      TravelEthiopiaSearch_search g start goal ''dfs'' = Inr \<lparr>path = [], success = False\<rparr> \<and>
      TravelEthiopiaSearch_search g start goal ''BFS'' = Inr \<lparr>path = [], success = False\<rparr> \<and>
      TravelEthiopiaSearch_search g start goal ''Dfs'' = Inr \<lparr>path = [], success = False\<rparr>) \<and>
   (map_of (weighted_adjacency wg) start = None \<or> map_of (weighted_adjacency wg) goal = None \<longrightarrow>
      UniformCostSearch_search wg start goal = \<lparr>path = [], success = False, total_cost = 0\<rparr> \<and>
      AStarSearch_search wg heuristics start goal
        = Some \<lparr>path = [], success = False, total_cost = 0\<rparr>) \<and>
   (map_of (adjacency_list (build calls)) n = None \<longleftrightarrow>
      map_of (weighted_adjacency (build calls)) n = None)"
proof -
  have "map_of (adjacency_list (build calls)) n = None \<longleftrightarrow>
      map_of (weighted_adjacency (build calls)) n = None"
    using build_same_nodes[of calls] by (metis domIff)
  then show ?thesis
    by (simp add: breadth_first_search_def depth_first_search_def TravelEthiopiaSearch_search_def
          UniformCostSearch_search_def AStarSearch_search_def Let_def lower_names)
qed

theorem unknown_endpoint_fails_witness:
  "map_of (adjacency_list (build [(''A'', ''B'', 3)])) ''X'' = None \<and>
   map_of (weighted_adjacency (build [(''A'', ''B'', 3)])) ''X'' = None \<and>
   breadth_first_search (build [(''A'', ''B'', 3)]) ''A'' ''X'' = \<lparr>path = [], success = False\<rparr> \<and>
   depth_first_search (build [(''A'', ''B'', 3)]) ''X'' ''B'' = \<lparr>path = [], success = False\<rparr> \<and>
   UniformCostSearch_search (build [(''A'', ''B'', 3)]) ''A'' ''X''
     = \<lparr>path = [], success = False, total_cost = 0\<rparr> \<and>
   AStarSearch_search (build [(''A'', ''B'', 3)]) [] ''X'' ''B''
     = Some \<lparr>path = [], success = False, total_cost = 0\<rparr>"
proof -
  have a: "map_of (adjacency_list (build [(''A'', ''B'', 3)])) ''X'' = None" by code_simp
  have w: "map_of (weighted_adjacency (build [(''A'', ''B'', 3)])) ''X'' = None" by code_simp
  show ?thesis
    using a w
      unknown_endpoint_fails[of "build [(''A'', ''B'', 3)]" "''A''" "''X''"
                                "build [(''A'', ''B'', 3)]" "[]"]
      unknown_endpoint_fails[of "build [(''A'', ''B'', 3)]" "''X''" "''B''"
                                "build [(''A'', ''B'', 3)]" "[]"]
    by simp
qed

text \<open>
  C7, as the code has it. For a node \<open>s\<close> that is a key of the adjacency the algorithm
  reads, \<open>search(s, s)\<close> returns the path \<open>[s]\<close> and \<open>success = True\<close>; the results of UCS
  and A* also carry \<open>total_cost = 0\<close>. The result of BFS and DFS is a \<^verbatim>\<open>SearchResult\<close>,
  which has no \<^verbatim>\<open>total_cost\<close>.
\<close>

theorem start_equals_goal:
  "(map_of (adjacency_list g) s \<noteq> None \<longrightarrow>
      breadth_first_search g s s = \<lparr>path = [s], success = True\<rparr> \<and>
      depth_first_search g s s = \<lparr>path = [s], success = True\<rparr>) \<and>
   (map_of (weighted_adjacency wg) s \<noteq> None \<longrightarrow>
      UniformCostSearch_search wg s s = \<lparr>path = [s], success = True, total_cost = 0\<rparr> \<and>
      AStarSearch_search wg heuristics s s
        = Some \<lparr>path = [s], success = True, total_cost = 0\<rparr>)"
  by (simp add: breadth_first_search_def depth_first_search_def
        UniformCostSearch_search_def AStarSearch_search_def)

theorem start_equals_goal_witness:
  "map_of (adjacency_list (build [(''A'', ''B'', 3)])) ''A'' \<noteq> None \<and>
   map_of (weighted_adjacency (build [(''A'', ''B'', 3)])) ''A'' \<noteq> None \<and>
   breadth_first_search (build [(''A'', ''B'', 3)]) ''A'' ''A'' = \<lparr>path = [''A''], success = True\<rparr> \<and>
   depth_first_search (build [(''A'', ''B'', 3)]) ''A'' ''A'' = \<lparr>path = [''A''], success = True\<rparr> \<and>
   UniformCostSearch_search (build [(''A'', ''B'', 3)]) ''A'' ''A''
     = \<lparr>path = [''A''], success = True, total_cost = 0\<rparr> \<and>
   AStarSearch_search (build [(''A'', ''B'', 3)]) [] ''A'' ''A''
     = Some \<lparr>path = [''A''], success = True, total_cost = 0\<rparr>"
proof -
  have a: "map_of (adjacency_list (build [(''A'', ''B'', 3)])) ''A'' \<noteq> None" by code_simp
  have w: "map_of (weighted_adjacency (build [(''A'', ''B'', 3)])) ''A'' \<noteq> None" by code_simp
  show ?thesis
    using a w
      start_equals_goal[of "build [(''A'', ''B'', 3)]" "''A''" "build [(''A'', ''B'', 3)]" "[]"]
    by simp
qed

text \<open>
  The result that BFS and DFS return for \<open>search(s, s)\<close> has no attribute \<^verbatim>\<open>total_cost\<close>,
  so it does not have \<open>total_cost = 0\<close>; the result of UCS has it.
\<close>

theorem bfs_result_has_no_total_cost:
  "map_of (adjacency_list (build [(''A'', ''B'', 3)])) ''A'' \<noteq> None \<and>
   map_of (SearchResult_vars (breadth_first_search (build [(''A'', ''B'', 3)]) ''A'' ''A''))
     ''total_cost'' \<noteq> Some (PyNumber 0) \<and>
   map_of (SearchResult_vars (depth_first_search (build [(''A'', ''B'', 3)]) ''A'' ''A''))
     ''total_cost'' = None \<and>
   map_of (UCSResult_vars (UniformCostSearch_search (build [(''A'', ''B'', 3)]) ''A'' ''A''))
     ''total_cost'' = Some (PyNumber 0)"
  by code_simp

section \<open>Breadth-first search finds a path with the fewest edges\<close>

lemma walk_nonempty: "walk nbrs p \<Longrightarrow> p \<noteq> []"
  by (cases p) auto

lemma walk_snoc:
  "walk nbrs (p @ [m]) \<longleftrightarrow> p = [] \<or> (walk nbrs p \<and> m \<in> set (nbrs (last p)))"
  by (induction nbrs p rule: walk.induct) auto

lemma is_path_single: "is_path g s [x] t \<longleftrightarrow> x = s \<and> x = t"
  by (auto simp: is_path_def)

lemma is_path_snoc:
  "is_path g s p n \<Longrightarrow> m \<in> set (get_neighbors g n) \<Longrightarrow> is_path g s (p @ [m]) m"
  by (auto simp: is_path_def walk_snoc dest: walk_nonempty)

lemma is_path_snocD:
  assumes "is_path g s q x" "2 \<le> length q"
  shows "\<exists>q' y. q = q' @ [x] \<and> is_path g s q' y \<and> x \<in> set (get_neighbors g y)"
proof -
  obtain q' z where q: "q = q' @ [z]" using assms(2) by (cases q rule: rev_cases) auto
  have ne: "q' \<noteq> []" using assms(2) q by auto
  have z: "z = x" using assms(1) q by (simp add: is_path_def)
  have "walk (get_neighbors g) q' \<and> x \<in> set (get_neighbors g (last q'))"
    using assms(1) ne unfolding q z is_path_def walk_snoc by simp
  moreover have "hd q' = s" using assms(1) ne unfolding q is_path_def by simp
  ultimately have "is_path g s q' (last q')" "x \<in> set (get_neighbors g (last q'))"
    by (simp_all add: is_path_def)
  then show ?thesis using q z by blast
qed

lemma is_path_length: "is_path g s p t \<Longrightarrow> 1 \<le> length p"
  by (cases p) (auto simp: is_path_def)

lemma closed_set_contains_paths:
  assumes cl: "\<forall>v\<in>V. set (get_neighbors g v) \<subseteq> V" and s: "s \<in> V"
  shows "is_path g s q t \<Longrightarrow> t \<in> V"
proof (induction q arbitrary: t rule: rev_induct)
  case Nil
  then show ?case by (simp add: is_path_def)
next
  case (snoc x q)
  show ?case
  proof (cases "q = []")
    case True
    then show ?thesis using snoc.prems s by (auto simp: is_path_def)
  next
    case False
    then have "2 \<le> length (q @ [x])" by (cases q) auto
    from is_path_snocD[OF snoc.prems this] obtain q' y where
      "q @ [x] = q' @ [t]" "is_path g s q' y" "t \<in> set (get_neighbors g y)" by blast
    then have "is_path g s q y" by simp
    then have "y \<in> V" by (rule snoc.IH)
    then show ?thesis using cl \<open>t \<in> set (get_neighbors g y)\<close> by blast
  qed
qed

lemma bfs_expand_Inl:
  "bfs_expand goal p ns queue visited = Inl r \<Longrightarrow>
   r = \<lparr>path = p @ [goal], success = True\<rparr> \<and> goal \<in> set ns \<and> goal \<notin> visited"
  by (induction ns arbitrary: queue visited) (auto simp: Let_def split: if_splits)

lemma bfs_inv_initial:
  assumes "s \<noteq> goal"
  shows "bfs_inv g s goal [(s, [s])] {s}"
proof -
  have "\<And>x p'. is_path g s p' x \<Longrightarrow> length p' \<le> 1 \<Longrightarrow> x = s"
  proof -
    fix x p' assume p: "is_path g s p' x" and l: "length p' \<le> 1"
    then obtain y where "p' = [y]" using is_path_length[OF p] by (cases p') auto
    then show "x = s" using p by (auto simp: is_path_single)
  qed
  then show ?thesis
    using assms by (auto simp: bfs_inv_def is_path_single dest: is_path_length)
qed

lemma bfs_inv_step:
  assumes inv: "bfs_inv g s goal ((cur, p) # rest) visited"
    and ex: "bfs_expand goal p (get_neighbors g cur) rest visited = Inr (queue', visited')"
  shows "bfs_inv g s goal queue' visited'"
proof -
  from bfs_expand_Inr[OF ex] obtain new where
    v': "visited' = visited \<union> set (get_neighbors g cur)" and
    q': "queue' = rest @ map (\<lambda>n. (n, p @ [n])) new" and
    new: "set new = set (get_neighbors g cur) - visited" and
    gl: "goal \<in> set (get_neighbors g cur) \<longrightarrow> goal \<in> visited"
    by blast
  let ?k = "length p"
  let ?len = "\<lambda>e::node \<times> node list. length (snd e)"
  have sV: "s \<in> visited" and gV: "goal \<notin> visited"
    using inv by (simp_all add: bfs_inv_def)
  have pcur: "is_path g s p cur" and curV: "cur \<in> visited"
    using inv by (simp_all add: bfs_inv_def)
  have restP: "\<And>n p1. (n, p1) \<in> set rest \<Longrightarrow>
      is_path g s p1 n \<and> n \<in> visited \<and> (\<forall>p'. is_path g s p' n \<longrightarrow> length p1 \<le> length p') \<and>
      length p1 \<le> Suc ?k"
    using inv unfolding bfs_inv_def by auto
  have srt: "sorted (map ?len ((cur, p) # rest))"
    using inv by (simp add: bfs_inv_def)
  have rest_ge: "\<And>n p1. (n, p1) \<in> set rest \<Longrightarrow> ?k \<le> length p1"
    using srt by auto
  have srt_rest: "sorted (map ?len rest)" using srt by simp
  have V1: "\<And>x p'. is_path g s p' x \<Longrightarrow> length p' \<le> ?k \<Longrightarrow> x \<in> visited"
    using inv unfolding bfs_inv_def by auto
  have V3: "\<And>v. v \<in> visited \<Longrightarrow> v \<noteq> cur \<Longrightarrow> v \<notin> fst ` set rest \<Longrightarrow>
              set (get_neighbors g v) \<subseteq> visited"
    using inv unfolding bfs_inv_def by auto
  have extP: "\<And>n p1. (n, p1) \<in> set (map (\<lambda>n. (n, p @ [n])) new) \<Longrightarrow>
      is_path g s p1 n \<and> n \<in> visited' \<and> (\<forall>p'. is_path g s p' n \<longrightarrow> length p1 \<le> length p') \<and>
      length p1 = Suc ?k"
  proof -
    fix n p1 assume "(n, p1) \<in> set (map (\<lambda>n. (n, p @ [n])) new)"
    then have n: "n \<in> set new" and p1: "p1 = p @ [n]" by auto
    have nn: "n \<in> set (get_neighbors g cur)" and nv: "n \<notin> visited" using n new by auto
    have "is_path g s p1 n" unfolding p1 using pcur nn by (rule is_path_snoc)
    moreover have "n \<in> visited'" using nn v' by simp
    moreover have "\<forall>p'. is_path g s p' n \<longrightarrow> length p1 \<le> length p'"
    proof (intro allI impI)
      fix p' assume pp: "is_path g s p' n"
      show "length p1 \<le> length p'"
      proof (rule ccontr)
        assume "\<not> length p1 \<le> length p'"
        then have "length p' \<le> ?k" using p1 by simp
        from V1[OF pp this] nv show False by simp
      qed
    qed
    ultimately show "is_path g s p1 n \<and> n \<in> visited' \<and>
        (\<forall>p'. is_path g s p' n \<longrightarrow> length p1 \<le> length p') \<and> length p1 = Suc ?k"
      using p1 by simp
  qed
  have allP: "\<And>n p1. (n, p1) \<in> set queue' \<Longrightarrow>
      is_path g s p1 n \<and> n \<in> visited' \<and> (\<forall>p'. is_path g s p' n \<longrightarrow> length p1 \<le> length p') \<and>
      ?k \<le> length p1 \<and> length p1 \<le> Suc ?k"
  proof -
    fix n p1 assume "(n, p1) \<in> set queue'"
    then consider "(n, p1) \<in> set rest" | "(n, p1) \<in> set (map (\<lambda>n. (n, p @ [n])) new)"
      unfolding q' by auto
    then show "is_path g s p1 n \<and> n \<in> visited' \<and>
        (\<forall>p'. is_path g s p' n \<longrightarrow> length p1 \<le> length p') \<and>
        ?k \<le> length p1 \<and> length p1 \<le> Suc ?k"
    proof cases
      case 1
      then show ?thesis using restP[OF 1] rest_ge[OF 1] v' by simp
    next
      case 2
      then show ?thesis using extP[OF 2] by auto
    qed
  qed
  have hd_ge: "queue' \<noteq> [] \<Longrightarrow> ?k \<le> length (snd (hd queue'))"
  proof -
    assume "queue' \<noteq> []"
    then have "hd queue' \<in> set queue'" by simp
    then have "(fst (hd queue'), snd (hd queue')) \<in> set queue'" by simp
    from allP[OF this] show ?thesis by simp
  qed
  have srt': "sorted (map ?len queue')"
  proof -
    have "sorted (map ?len (map (\<lambda>n. (n, p @ [n])) new))"
      by (induction new) auto
    moreover have "\<forall>x\<in>set (map ?len rest). \<forall>y\<in>set (map ?len (map (\<lambda>n. (n, p @ [n])) new)). x \<le> y"
      using restP by fastforce
    ultimately show ?thesis unfolding q' using srt_rest by (simp add: sorted_append)
  qed
  have sV': "s \<in> visited'" using sV v' by simp
  have gV': "goal \<notin> visited'" using gV gl v' by auto
  have V3': "\<And>v. v \<in> visited' \<Longrightarrow> v \<notin> fst ` set queue' \<Longrightarrow> set (get_neighbors g v) \<subseteq> visited'"
  proof -
    fix v assume vin: "v \<in> visited'" and vq: "v \<notin> fst ` set queue'"
    have vr: "v \<notin> fst ` set rest" and vn: "v \<notin> set new" using vq unfolding q' by force+
    have "v \<in> visited" using vin vn new v' by auto
    show "set (get_neighbors g v) \<subseteq> visited'"
    proof (cases "v = cur")
      case True
      then show ?thesis using v' by auto
    next
      case False
      from V3[OF \<open>v \<in> visited\<close> False vr] show ?thesis using v' by auto
    qed
  qed
  have V1': "\<And>x p'. queue' \<noteq> [] \<Longrightarrow> is_path g s p' x \<Longrightarrow>
               length p' \<le> length (snd (hd queue')) \<Longrightarrow> x \<in> visited'"
  proof -
    fix x p' assume ne: "queue' \<noteq> []" and pp: "is_path g s p' x"
      and le: "length p' \<le> length (snd (hd queue'))"
    have hdin: "(fst (hd queue'), snd (hd queue')) \<in> set queue'" using ne by simp
    have hd_le: "length (snd (hd queue')) \<le> Suc ?k" using allP[OF hdin] by simp
    show "x \<in> visited'"
    proof (cases "length p' \<le> ?k")
      case True
      from V1[OF pp True] show ?thesis using v' by simp
    next
      case False
      then have lp: "length p' = Suc ?k" and hk: "length (snd (hd queue')) = Suc ?k"
        using le hd_le by simp_all
      have "1 \<le> ?k" using pcur by (rule is_path_length)
      then have "2 \<le> length p'" using lp by simp
      from is_path_snocD[OF pp this] obtain q y where
        p': "p' = q @ [x]" and qy: "is_path g s q y" and xy: "x \<in> set (get_neighbors g y)"
        by blast
      have lq: "length q = ?k" using lp p' by simp
      then have yV: "y \<in> visited" using V1[OF qy] by simp
      have "y \<notin> fst ` set queue'"
      proof
        assume "y \<in> fst ` set queue'"
        then obtain py where yin: "(y, py) \<in> set queue'" by force
        have "length py \<le> length q" using allP[OF yin] qy by blast
        moreover have "length (snd (hd queue')) \<le> length py"
        proof -
          obtain e es where qe: "queue' = e # es" using ne by (cases queue') auto
          then have "\<forall>z\<in>set es. ?len e \<le> ?len z" using srt' by simp
          then show ?thesis using yin qe by auto
        qed
        ultimately show False using hk lq by simp
      qed
      moreover have "y \<in> visited'" using yV v' by simp
      ultimately have "set (get_neighbors g y) \<subseteq> visited'" using V3' by blast
      then show ?thesis using xy by blast
    qed
  qed
  have Q: "\<forall>(n, p1) \<in> set queue'. is_path g s p1 n \<and> n \<in> visited' \<and>
                            (\<forall>p'. is_path g s p' n \<longrightarrow> length p1 \<le> length p') \<and>
                            length p1 \<le> Suc (length (snd (hd queue')))"
  proof (clarify)
    fix n p1 assume m: "(n, p1) \<in> set queue'"
    then have "queue' \<noteq> []" by auto
    from hd_ge[OF this] allP[OF m]
    show "is_path g s p1 n \<and> n \<in> visited' \<and>
                            (\<forall>p'. is_path g s p' n \<longrightarrow> length p1 \<le> length p') \<and>
                            length p1 \<le> Suc (length (snd (hd queue')))" by simp
  qed
  show ?thesis
    unfolding bfs_inv_def using sV' gV' Q srt' V1' V3' by blast
qed

lemma bfs_loop_correct:
  "bfs_inv g s goal queue visited \<Longrightarrow>
   (success (bfs_loop g goal queue visited) \<longrightarrow>
      is_path g s (path (bfs_loop g goal queue visited)) goal \<and>
      (\<forall>q. is_path g s q goal \<longrightarrow> length (path (bfs_loop g goal queue visited)) \<le> length q)) \<and>
   (\<not> success (bfs_loop g goal queue visited) \<longrightarrow> (\<forall>q. \<not> is_path g s q goal))"
proof (induction g goal queue visited rule: bfs_loop.induct)
  case (1 g goal queue visited)
  show ?case
  proof (cases queue)
    case Nil
    have sV: "s \<in> visited" and gV: "goal \<notin> visited"
      and cl: "\<forall>v\<in>visited. set (get_neighbors g v) \<subseteq> visited"
      using "1.prems" Nil by (simp_all add: bfs_inv_def)
    have "\<And>q. \<not> is_path g s q goal"
      using closed_set_contains_paths[OF cl sV] gV by blast
    then show ?thesis using Nil by (simp add: bfs_loop.simps)
  next
    case (Cons e rest)
    obtain current p where e: "e = (current, p)" by (cases e)
    have inv: "bfs_inv g s goal ((current, p) # rest) visited"
      using "1.prems" Cons e by simp
    show ?thesis
    proof (cases "bfs_expand goal p (get_neighbors g current) rest visited")
      case (Inl r)
      from bfs_expand_Inl[OF Inl] have r: "r = \<lparr>path = p @ [goal], success = True\<rparr>"
        and gn: "goal \<in> set (get_neighbors g current)" and gv: "goal \<notin> visited" by simp_all
      have res: "bfs_loop g goal queue visited = \<lparr>path = p @ [goal], success = True\<rparr>"
        using Cons e Inl r by (simp add: bfs_loop.simps)
      have pcur: "is_path g s p current" using inv by (simp add: bfs_inv_def)
      have V1: "\<And>x p'. is_path g s p' x \<Longrightarrow> length p' \<le> length p \<Longrightarrow> x \<in> visited"
        using inv unfolding bfs_inv_def by auto
      have "is_path g s (p @ [goal]) goal" using pcur gn by (rule is_path_snoc)
      moreover have "\<forall>q. is_path g s q goal \<longrightarrow> length (p @ [goal]) \<le> length q"
      proof (intro allI impI)
        fix q assume q: "is_path g s q goal"
        show "length (p @ [goal]) \<le> length q"
        proof (rule ccontr)
          assume "\<not> length (p @ [goal]) \<le> length q"
          then have "length q \<le> length p" by simp
          from V1[OF q this] gv show False by simp
        qed
      qed
      ultimately show ?thesis unfolding res by simp
    next
      case (Inr x2)
      obtain queue' visited' where x2: "x2 = (queue', visited')" by (cases x2)
      have ex: "bfs_expand goal p (get_neighbors g current) rest visited = Inr (queue', visited')"
        using Inr x2 by simp
      have res: "bfs_loop g goal queue visited = bfs_loop g goal queue' visited'"
        using Cons e ex by (simp add: bfs_loop.simps)
      have "bfs_inv g s goal queue' visited'" using inv ex by (rule bfs_inv_step)
      from "1.IH"[OF Cons e[symmetric] Inr x2[symmetric] this]
      show ?thesis unfolding res .
    qed
  qed
qed

text \<open>
  C3. When start and goal are nodes of the graph and some path \<open>q\<close> leads from start to
  goal, \<^verbatim>\<open>_breadth_first_search\<close> succeeds, its path is a path of the graph from start to
  goal, and it has no more nodes (so no more edges) than \<open>q\<close>.
\<close>

theorem bfs_shortest_path:
  assumes "map_of (adjacency_list g) start \<noteq> None" "map_of (adjacency_list g) goal \<noteq> None"
    and reach: "is_path g start q goal"
  shows "success (breadth_first_search g start goal) \<and>
         is_path g start (path (breadth_first_search g start goal)) goal \<and>
         length (path (breadth_first_search g start goal)) \<le> length q"
proof (cases "start = goal")
  case True
  have "1 \<le> length q" using reach by (rule is_path_length)
  then show ?thesis using assms True
    by (auto simp: breadth_first_search_def is_path_single)
next
  case False
  have res: "breadth_first_search g start goal = bfs_loop g goal [(start, [start])] {start}"
    using assms False by (auto simp: breadth_first_search_def)
  from bfs_loop_correct[OF bfs_inv_initial[OF False], of g] reach
  show ?thesis unfolding res by blast
qed

theorem bfs_shortest_path_witness:
  "is_path g1 ''A'' [''A'', ''D'', ''C''] ''C'' \<and>
   breadth_first_search g1 ''A'' ''C'' = \<lparr>path = [''A'', ''B'', ''C''], success = True\<rparr> \<and>
   is_path g1 ''A'' (path (breadth_first_search g1 ''A'' ''C'')) ''C'' \<and>
   length (path (breadth_first_search g1 ''A'' ''C'')) \<le> 3"
proof -
  have a: "map_of (adjacency_list g1) ''A'' \<noteq> None" by code_simp
  have c: "map_of (adjacency_list g1) ''C'' \<noteq> None" by code_simp
  have q: "is_path g1 ''A'' [''A'', ''D'', ''C''] ''C''" by code_simp
  have r: "breadth_first_search g1 ''A'' ''C'' = \<lparr>path = [''A'', ''B'', ''C''], success = True\<rparr>"
    by code_simp
  from bfs_shortest_path[OF a c q] q r show ?thesis by simp
qed

section \<open>Uniform-cost search returns a cheapest route\<close>

lemma nonneg_costsD:
  assumes "nonneg_costs g" "(y, w) \<in> set (get_weighted_neighbors g x)"
  shows "0 \<le> w"
proof (cases "map_of (weighted_adjacency g) x")
  case None
  then show ?thesis using assms(2) by (simp add: get_weighted_neighbors_def dict_get_def)
next
  case (Some ns)
  then have "(x, ns) \<in> set (weighted_adjacency g)" by (rule map_of_SomeD)
  then have "list_all (\<lambda>(m, w). 0 \<le> w) ns"
    using assms(1) unfolding nonneg_costs_def list_all_iff by fastforce
  moreover have "(y, w) \<in> set ns"
    using assms(2) Some by (simp add: get_weighted_neighbors_def dict_get_def)
  ultimately show ?thesis unfolding list_all_iff by fastforce
qed

lemma wwalk_snoc:
  "wwalk W x (hs @ [(y, w)]) \<longleftrightarrow> wwalk W x hs \<and> (y, w) \<in> set (W (last (x # map fst hs)))"
  by (induction W x hs rule: wwalk.induct) auto

lemma is_route_Nil: "is_route g s [] t \<longleftrightarrow> s = t"
  by (simp add: is_route_def)

lemma is_route_snoc:
  "is_route g s (hs @ [(y, w)]) t \<longleftrightarrow>
     t = y \<and> (\<exists>x. is_route g s hs x \<and> (y, w) \<in> set (get_weighted_neighbors g x))"
  by (auto simp: is_route_def wwalk_snoc)

lemma hops_cost_snoc: "hops_cost (hs @ [(y, w)]) = hops_cost hs + w"
  by (simp add: hops_cost_def)

lemma hops_cost_nonneg:
  assumes "nonneg_costs g"
  shows "is_route g s hs t \<Longrightarrow> 0 \<le> hops_cost hs"
proof (induction hs arbitrary: t rule: rev_induct)
  case Nil
  then show ?case by (simp add: hops_cost_def)
next
  case (snoc h hs)
  obtain y w where h: "h = (y, w)" by (cases h)
  from snoc.prems obtain x where x: "is_route g s hs x"
    and e: "(y, w) \<in> set (get_weighted_neighbors g x)"
    unfolding h is_route_snoc by blast
  have "0 \<le> w" using assms e by (rule nonneg_costsD)
  then show ?case using snoc.IH[OF x] unfolding h hops_cost_snoc by simp
qed

lemma entry_le_cost: "(e :: 'a::linorder \<times> 'b::linorder) \<le> e' \<Longrightarrow> fst e \<le> fst e'"
  by (auto simp: less_eq_prod_def)

lemma heappop_min_cost:
  "e \<in> set pq \<Longrightarrow> fst (fst (heappop pq)) \<le> fst (e :: 'a::linorder \<times> 'b::linorder)"
  using heappop_le[of e pq] by (rule entry_le_cost)

lemma ucs_expand_entries:
  "ucs_expand c p visited ns pq counter = (pq', counter') \<Longrightarrow>
   \<exists>new. pq' = pq @ new \<and>
     (\<forall>e\<in>set new. \<exists>y w k. e = (c + w, k, y, p @ [y]) \<and> (y, w) \<in> set ns \<and> visited y = None) \<and>
     (\<forall>(y, w)\<in>set ns. visited y = None \<longrightarrow> (\<exists>e\<in>set new. city e = y \<and> fst e = c + w))"
proof (induction ns arbitrary: pq counter)
  case Nil
  then show ?case by simp
next
  case (Cons a ns)
  obtain n w where a: "a = (n, w)" by (cases a)
  show ?case
  proof (cases "visited n")
    case None
    then have "ucs_expand c p visited ns (pq @ [(c + w, counter + 1, n, p @ [n])]) (counter + 1)
               = (pq', counter')"
      using Cons.prems a by (simp add: heappush_def)
    from Cons.IH[OF this] obtain new where
      1: "pq' = (pq @ [(c + w, counter + 1, n, p @ [n])]) @ new" and
      2: "\<forall>e\<in>set new. \<exists>y w k. e = (c + w, k, y, p @ [y]) \<and> (y, w) \<in> set ns \<and> visited y = None" and
      3: "\<forall>(y, w)\<in>set ns. visited y = None \<longrightarrow> (\<exists>e\<in>set new. city e = y \<and> fst e = c + w)"
      by blast
    let ?new = "(c + w, counter + 1, n, p @ [n]) # new"
    have "pq' = pq @ ?new" using 1 by simp
    moreover have "\<forall>e\<in>set ?new. \<exists>y w k. e = (c + w, k, y, p @ [y]) \<and> (y, w) \<in> set (a # ns) \<and> visited y = None"
      using 2 None a by auto
    moreover have "\<forall>(y, w)\<in>set (a # ns). visited y = None \<longrightarrow> (\<exists>e\<in>set ?new. city e = y \<and> fst e = c + w)"
      using 3 a by (auto simp: city_def)
    ultimately show ?thesis by blast
  next
    case (Some v)
    then have "ucs_expand c p visited ns pq counter = (pq', counter')"
      using Cons.prems a by simp
    from Cons.IH[OF this] obtain new where
      1: "pq' = pq @ new" and
      2: "\<forall>e\<in>set new. \<exists>y w k. e = (c + w, k, y, p @ [y]) \<and> (y, w) \<in> set ns \<and> visited y = None" and
      3: "\<forall>(y, w)\<in>set ns. visited y = None \<longrightarrow> (\<exists>e\<in>set new. city e = y \<and> fst e = c + w)"
      by blast
    have "\<forall>e\<in>set new. \<exists>y w k. e = (c + w, k, y, p @ [y]) \<and> (y, w) \<in> set (a # ns) \<and> visited y = None"
      using 2 by auto
    moreover have "\<forall>(y, w)\<in>set (a # ns). visited y = None \<longrightarrow> (\<exists>e\<in>set new. city e = y \<and> fst e = c + w)"
      using 3 a Some by auto
    ultimately show ?thesis using 1 by blast
  qed
qed

lemma ucs_inv_initial:
  "s \<noteq> goal \<Longrightarrow> ucs_inv g s goal [(0, 0, s, [s])] Map.empty"
  unfolding ucs_inv_def
  by (auto simp: city_def hops_cost_def is_route_Nil intro!: exI[of _ "[]"])

lemma ucs_frontier:
  assumes inv: "ucs_inv g s goal pq visited" and nn: "nonneg_costs g"
  shows "is_route g s hs t \<Longrightarrow> t \<notin> dom visited \<Longrightarrow> \<exists>e\<in>set pq. fst e \<le> hops_cost hs"
proof (induction hs arbitrary: t rule: rev_induct)
  case Nil
  then have "s \<notin> dom visited" by (simp add: is_route_Nil)
  then obtain e where "e \<in> set pq" "fst e \<le> 0" using inv unfolding ucs_inv_def by blast
  then show ?case by (auto simp: hops_cost_def)
next
  case (snoc h hs)
  obtain y w where h: "h = (y, w)" by (cases h)
  from snoc.prems(1) obtain x where ty: "t = y" and x: "is_route g s hs x"
    and e: "(y, w) \<in> set (get_weighted_neighbors g x)"
    unfolding h is_route_snoc by blast
  have w0: "0 \<le> w" using nn e by (rule nonneg_costsD)
  show ?case
  proof (cases "visited x")
    case None
    then have "x \<notin> dom visited" by (simp add: domIff)
    from snoc.IH[OF x this] obtain e' where "e' \<in> set pq" "fst e' \<le> hops_cost hs" by blast
    then show ?thesis using w0 unfolding h hops_cost_snoc by force
  next
    case (Some d)
    have d: "d \<le> hops_cost hs" using inv Some x unfolding ucs_inv_def by blast
    have "y \<notin> dom visited" using snoc.prems(2) ty by simp
    then obtain e' where "e' \<in> set pq" "fst e' \<le> d + w"
      using inv Some e unfolding ucs_inv_def by blast
    then show ?thesis using d unfolding h hops_cost_snoc by force
  qed
qed

lemma ucs_inv_skip:
  assumes inv: "ucs_inv g s goal pq visited" and ne: "pq \<noteq> []"
    and st: "city (fst (heappop pq)) \<in> dom visited"
  shows "ucs_inv g s goal (snd (heappop pq)) visited"
proof -
  let ?pq' = "snd (heappop pq)"
  have sub: "set ?pq' \<subseteq> set pq" by (rule heappop_rest_subset)
  have keep: "\<And>e. e \<in> set pq \<Longrightarrow> city e \<notin> dom visited \<Longrightarrow> e \<in> set ?pq'"
  proof -
    fix e assume "e \<in> set pq" "city e \<notin> dom visited"
    then have "e \<noteq> fst (heappop pq)" using st by auto
    with \<open>e \<in> set pq\<close> show "e \<in> set ?pq'" by (rule heappop_rest_other)
  qed
  have 1: "goal \<notin> dom visited" using inv by (simp add: ucs_inv_def)
  have 2: "\<forall>(c, k, n, p)\<in>set ?pq'. \<exists>hs. is_route g s hs n \<and> p = s # map fst hs \<and> c = hops_cost hs"
    using inv sub unfolding ucs_inv_def by blast
  have 3: "\<forall>x d. visited x = Some d \<longrightarrow>
        (\<forall>e\<in>set ?pq'. d \<le> fst e) \<and>
        (\<forall>hs. is_route g s hs x \<longrightarrow> d \<le> hops_cost hs) \<and>
        (\<forall>(y, w)\<in>set (get_weighted_neighbors g x). y \<notin> dom visited \<longrightarrow>
           (\<exists>e\<in>set ?pq'. city e = y \<and> fst e \<le> d + w))"
  proof (intro allI impI)
    fix x d assume v: "visited x = Some d"
    have a: "\<forall>e\<in>set ?pq'. d \<le> fst e" using inv v sub unfolding ucs_inv_def by blast
    have b: "\<forall>hs. is_route g s hs x \<longrightarrow> d \<le> hops_cost hs" using inv v unfolding ucs_inv_def by blast
    have c: "\<And>y w. (y, w) \<in> set (get_weighted_neighbors g x) \<Longrightarrow> y \<notin> dom visited \<Longrightarrow>
           (\<exists>e\<in>set ?pq'. city e = y \<and> fst e \<le> d + w)"
    proof -
      fix y w assume yw: "(y, w) \<in> set (get_weighted_neighbors g x)" and y: "y \<notin> dom visited"
      then obtain e where e: "e \<in> set pq" "city e = y" "fst e \<le> d + w"
        using inv v unfolding ucs_inv_def by blast
      then have "e \<in> set ?pq'" using keep y by simp
      then show "\<exists>e\<in>set ?pq'. city e = y \<and> fst e \<le> d + w" using e by blast
    qed
    show "(\<forall>e\<in>set ?pq'. d \<le> fst e) \<and>
        (\<forall>hs. is_route g s hs x \<longrightarrow> d \<le> hops_cost hs) \<and>
        (\<forall>(y, w)\<in>set (get_weighted_neighbors g x). y \<notin> dom visited \<longrightarrow>
           (\<exists>e\<in>set ?pq'. city e = y \<and> fst e \<le> d + w))"
      using a b c by blast
  qed
  have 4: "s \<in> dom visited \<or> (\<exists>e\<in>set ?pq'. city e = s \<and> fst e \<le> 0)"
  proof (cases "s \<in> dom visited")
    case True
    then show ?thesis ..
  next
    case False
    then obtain e where e: "e \<in> set pq" "city e = s" "fst e \<le> 0"
      using inv unfolding ucs_inv_def by blast
    then have "e \<in> set ?pq'" using keep False by simp
    then show ?thesis using e by blast
  qed
  show ?thesis unfolding ucs_inv_def using 1 2 3 4 by blast
qed

lemma ucs_no_reprocess:
  assumes inv: "ucs_inv g s goal pq visited" and ne: "pq \<noteq> []"
    and e: "fst (heappop pq) = (c, k, n, p)" and v: "visited n = Some d"
  shows "d \<le> c"
proof -
  have "fst (heappop pq) \<in> set pq" using ne by (rule heappop_in)
  then have "d \<le> fst (fst (heappop pq))" using inv v unfolding ucs_inv_def by blast
  then show ?thesis using e by simp
qed

lemma ucs_pop_optimal:
  assumes inv: "ucs_inv g s goal pq visited" and nn: "nonneg_costs g"
    and e: "fst (heappop pq) = (c, k, n, p)" and v: "visited n = None"
    and r: "is_route g s hs n"
  shows "c \<le> hops_cost hs"
proof -
  have "n \<notin> dom visited" using v by (simp add: domIff)
  from ucs_frontier[OF inv nn r this] obtain e' where e': "e' \<in> set pq" "fst e' \<le> hops_cost hs"
    by blast
  have "fst (fst (heappop pq)) \<le> fst e'" using e'(1) by (rule heappop_min_cost)
  then show ?thesis using e e'(2) by simp
qed

lemma ucs_pop_route:
  assumes inv: "ucs_inv g s goal pq visited" and ne: "pq \<noteq> []"
    and e: "fst (heappop pq) = (c, k, n, p)"
  shows "\<exists>hs. is_route g s hs n \<and> p = s # map fst hs \<and> c = hops_cost hs"
proof -
  have "(c, k, n, p) \<in> set pq" using heappop_in[OF ne] e by simp
  then show ?thesis using inv unfolding ucs_inv_def by blast
qed

lemma ucs_inv_expand:
  assumes inv: "ucs_inv g s goal pq visited" and nn: "nonneg_costs g" and ne: "pq \<noteq> []"
    and e: "fst (heappop pq) = (c, k, n, p)" and v: "visited n = None" and ng: "n \<noteq> goal"
    and ex: "ucs_expand c p (visited(n \<mapsto> c)) (get_weighted_neighbors g n)
               (snd (heappop pq)) counter = (pq'', counter')"
  shows "ucs_inv g s goal pq'' (visited(n \<mapsto> c))"
proof -
  let ?pq' = "snd (heappop pq)"
  let ?V = "visited(n \<mapsto> c)"
  from ucs_expand_entries[OF ex] obtain new where
    pq'': "pq'' = ?pq' @ new" and
    newE: "\<forall>e\<in>set new. \<exists>y w k. e = (c + w, k, y, p @ [y]) \<and>
             (y, w) \<in> set (get_weighted_neighbors g n) \<and> ?V y = None" and
    newA: "\<forall>(y, w)\<in>set (get_weighted_neighbors g n). ?V y = None \<longrightarrow>
             (\<exists>e\<in>set new. city e = y \<and> fst e = c + w)"
    by blast
  have sub: "set ?pq' \<subseteq> set pq" by (rule heappop_rest_subset)
  have cn: "city (fst (heappop pq)) = n" using e by (simp add: city_def)
  have keep: "\<And>e. e \<in> set pq \<Longrightarrow> city e \<noteq> n \<Longrightarrow> e \<in> set pq''"
  proof -
    fix e assume "e \<in> set pq" "city e \<noteq> n"
    then have "e \<noteq> fst (heappop pq)" using cn by auto
    with \<open>e \<in> set pq\<close> have "e \<in> set ?pq'" by (rule heappop_rest_other)
    then show "e \<in> set pq''" using pq'' by simp
  qed
  have minc: "\<And>e. e \<in> set pq \<Longrightarrow> c \<le> fst e"
    using heappop_min_cost[of _ pq] e by simp
  obtain hsn where hsn: "is_route g s hsn n" "p = s # map fst hsn" "c = hops_cost hsn"
    using ucs_pop_route[OF inv ne e] by blast
  have newc: "\<And>e. e \<in> set new \<Longrightarrow> c \<le> fst e"
  proof -
    fix e assume "e \<in> set new"
    then obtain y w k where "e = (c + w, k, y, p @ [y])" "(y, w) \<in> set (get_weighted_neighbors g n)"
      using newE by blast
    moreover from this have "0 \<le> w" using nn nonneg_costsD by blast
    ultimately show "c \<le> fst e" by simp
  qed
  have 1: "goal \<notin> dom ?V" using inv ng by (simp add: ucs_inv_def)
  have 2: "\<forall>(c', k', n', p')\<in>set pq''.
             \<exists>hs. is_route g s hs n' \<and> p' = s # map fst hs \<and> c' = hops_cost hs"
  proof (clarify)
    fix c' k' n' p' assume m: "(c', k', n', p') \<in> set pq''"
    show "\<exists>hs. is_route g s hs n' \<and> p' = s # map fst hs \<and> c' = hops_cost hs"
    proof (cases "(c', k', n', p') \<in> set ?pq'")
      case True
      then have "(c', k', n', p') \<in> set pq" using sub by blast
      then show ?thesis using inv unfolding ucs_inv_def by blast
    next
      case False
      then have "(c', k', n', p') \<in> set new" using m pq'' by simp
      then obtain w where c': "c' = c + w" and p': "p' = p @ [n']"
        and yw: "(n', w) \<in> set (get_weighted_neighbors g n)"
        using newE by blast
      have "is_route g s (hsn @ [(n', w)]) n'"
        unfolding is_route_snoc using hsn(1) yw by blast
      moreover have "p' = s # map fst (hsn @ [(n', w)])" using p' hsn(2) by simp
      moreover have "c' = hops_cost (hsn @ [(n', w)])" using c' hsn(3) by (simp add: hops_cost_snoc)
      ultimately show ?thesis by blast
    qed
  qed
  have 3: "\<forall>x d. ?V x = Some d \<longrightarrow>
        (\<forall>e\<in>set pq''. d \<le> fst e) \<and>
        (\<forall>hs. is_route g s hs x \<longrightarrow> d \<le> hops_cost hs) \<and>
        (\<forall>(y, w)\<in>set (get_weighted_neighbors g x). y \<notin> dom ?V \<longrightarrow>
           (\<exists>e\<in>set pq''. city e = y \<and> fst e \<le> d + w))"
  proof (intro allI impI)
    fix x d assume vx: "?V x = Some d"
    have dc: "d \<le> c"
    proof (cases "x = n")
      case True
      then show ?thesis using vx by simp
    next
      case False
      then have "visited x = Some d" using vx by simp
      moreover have "fst (heappop pq) \<in> set pq" using ne by (rule heappop_in)
      ultimately have "d \<le> fst (fst (heappop pq))" using inv unfolding ucs_inv_def by blast
      then show ?thesis using e by simp
    qed
    have a: "\<forall>e\<in>set pq''. d \<le> fst e"
    proof
      fix e' assume "e' \<in> set pq''"
      then consider "e' \<in> set pq" | "e' \<in> set new" using pq'' sub by auto
      then have "c \<le> fst e'" using minc newc by cases auto
      then show "d \<le> fst e'" using dc by simp
    qed
    have b: "\<forall>hs. is_route g s hs x \<longrightarrow> d \<le> hops_cost hs"
    proof (cases "x = n")
      case True
      then have "d = c" using vx by simp
      then show ?thesis using ucs_pop_optimal[OF inv nn e v] True by blast
    next
      case False
      then have "visited x = Some d" using vx by simp
      then show ?thesis using inv unfolding ucs_inv_def by blast
    qed
    have c: "\<And>y w. (y, w) \<in> set (get_weighted_neighbors g x) \<Longrightarrow> y \<notin> dom ?V \<Longrightarrow>
           (\<exists>e\<in>set pq''. city e = y \<and> fst e \<le> d + w)"
    proof -
      fix y w assume yw: "(y, w) \<in> set (get_weighted_neighbors g x)" and y: "y \<notin> dom ?V"
      have yn: "y \<noteq> n" and yv: "y \<notin> dom visited" using y by auto
      show "\<exists>e\<in>set pq''. city e = y \<and> fst e \<le> d + w"
      proof (cases "x = n")
        case True
        then have d: "d = c" using vx by simp
        have "?V y = None" using y by (simp only: domIff not_not)
        then obtain e' where "e' \<in> set new" "city e' = y" "fst e' = c + w"
          using newA yw True by blast
        then show ?thesis using pq'' d by auto
      next
        case False
        then have "visited x = Some d" using vx by simp
        then obtain e' where e': "e' \<in> set pq" "city e' = y" "fst e' \<le> d + w"
          using inv yw yv unfolding ucs_inv_def by blast
        then have "e' \<in> set pq''" using keep yn by simp
        then show ?thesis using e' by blast
      qed
    qed
    show "(\<forall>e\<in>set pq''. d \<le> fst e) \<and>
        (\<forall>hs. is_route g s hs x \<longrightarrow> d \<le> hops_cost hs) \<and>
        (\<forall>(y, w)\<in>set (get_weighted_neighbors g x). y \<notin> dom ?V \<longrightarrow>
           (\<exists>e\<in>set pq''. city e = y \<and> fst e \<le> d + w))"
      using a b c by blast
  qed
  have 4: "s \<in> dom ?V \<or> (\<exists>e\<in>set pq''. city e = s \<and> fst e \<le> 0)"
  proof (cases "s \<in> dom ?V")
    case True
    then show ?thesis ..
  next
    case False
    then have sn: "s \<noteq> n" and sv: "s \<notin> dom visited" by auto
    then obtain e' where e': "e' \<in> set pq" "city e' = s" "fst e' \<le> 0"
      using inv unfolding ucs_inv_def by blast
    then have "e' \<in> set pq''" using keep sn by simp
    then show ?thesis using e' by blast
  qed
  show ?thesis unfolding ucs_inv_def using 1 2 3 4 by blast
qed

lemma ucs_loop_correct:
  "nonneg_costs g \<Longrightarrow> ucs_inv g s goal pq visited \<Longrightarrow>
   ucs_post g s goal (ucs_loop g goal pq visited counter)"
proof (induction g goal pq visited counter rule: ucs_loop.induct)
  case (1 g goal pq visited counter)
  note nn = "1.prems"(1) and inv = "1.prems"(2)
  show ?case
  proof (cases "pq = []")
    case True
    have gV: "goal \<notin> dom visited" using inv by (simp add: ucs_inv_def)
    have "\<And>hs. \<not> is_route g s hs goal"
    proof
      fix hs assume "is_route g s hs goal"
      from ucs_frontier[OF inv nn this gV] show False using True by simp
    qed
    then show ?thesis using True by (simp add: ucs_loop.simps ucs_post_def)
  next
    case ne: False
    obtain c k n p where e: "fst (heappop pq) = (c, k, n, p)"
      by (cases "fst (heappop pq)") auto
    show ?thesis
    proof (cases "visited n")
      case (Some d)
      have dc: "d \<le> c" using inv ne e Some by (rule ucs_no_reprocess)
      have res: "ucs_loop g goal pq visited counter
                 = ucs_loop g goal (snd (heappop pq)) visited counter"
        using ne e Some dc by (simp add: ucs_loop.simps[of g goal pq visited counter])
      have "city (fst (heappop pq)) \<in> dom visited" using e Some by (auto simp: city_def)
      with inv ne have inv': "ucs_inv g s goal (snd (heappop pq)) visited"
        by (rule ucs_inv_skip)
      have cond: "case visited n of None \<Rightarrow> False | Some v \<Rightarrow> v \<le> c"
        using Some dc by simp
      from "1.IH"(1)[OF ne refl e[symmetric] refl refl refl cond nn inv']
      show ?thesis unfolding res .
    next
      case None
      have ncond: "\<not> (case visited n of None \<Rightarrow> False | Some v \<Rightarrow> v \<le> c)"
        using None by simp
      show ?thesis
      proof (cases "n = goal")
        case True
        have res: "ucs_loop g goal pq visited counter = \<lparr>path = p, success = True, total_cost = c\<rparr>"
          using ne e None True by (simp add: ucs_loop.simps[of g goal pq visited counter])
        have "\<exists>hs. is_route g s hs goal \<and> p = s # map fst hs \<and> c = hops_cost hs"
          using ucs_pop_route[OF inv ne e] True by simp
        moreover have "\<forall>hs. is_route g s hs goal \<longrightarrow> c \<le> hops_cost hs"
          using ucs_pop_optimal[OF inv nn e None] True by blast
        ultimately show ?thesis unfolding res ucs_post_def by simp
      next
        case False
        obtain pq'' counter' where ex:
          "ucs_expand c p (visited(n \<mapsto> c)) (get_weighted_neighbors g n) (snd (heappop pq)) counter
           = (pq'', counter')"
          by (cases "ucs_expand c p (visited(n \<mapsto> c)) (get_weighted_neighbors g n)
                       (snd (heappop pq)) counter") auto
        have res: "ucs_loop g goal pq visited counter
                   = ucs_loop g goal pq'' (visited(n \<mapsto> c)) counter'"
          using ne e None False ex by (simp add: ucs_loop.simps[of g goal pq visited counter])
        have inv': "ucs_inv g s goal pq'' (visited(n \<mapsto> c))"
          using inv nn ne e None False ex by (rule ucs_inv_expand)
        from "1.IH"(2)[OF ne refl e[symmetric] refl refl refl ncond refl False refl ex[symmetric] nn inv']
        show ?thesis unfolding res .
      qed
    qed
  qed
qed

lemma ucs_search_correct:
  assumes nn: "nonneg_costs g"
    and s: "map_of (weighted_adjacency g) start \<noteq> None"
    and t: "map_of (weighted_adjacency g) goal \<noteq> None"
  shows "ucs_post g start goal (UniformCostSearch_search g start goal)"
proof (cases "start = goal")
  case True
  have "is_route g start [] goal" using True by (simp add: is_route_Nil)
  moreover have "\<forall>hs. is_route g start hs goal \<longrightarrow> 0 \<le> hops_cost hs"
    using hops_cost_nonneg[OF nn] by blast
  ultimately show ?thesis using s t True
    by (auto simp: UniformCostSearch_search_def ucs_post_def hops_cost_def intro!: exI[of _ "[]"])
next
  case False
  have res: "UniformCostSearch_search g start goal
             = ucs_loop g goal [(0, 0, start, [start])] Map.empty 0"
    using s t False by (auto simp: UniformCostSearch_search_def)
  show ?thesis unfolding res
    using nn ucs_inv_initial[OF False] by (rule ucs_loop_correct)
qed

text \<open>
  C1. With non-negative costs and start and goal nodes of the weighted graph: if some
  route \<open>hs\<close> leads from start to goal, \<^verbatim>\<open>UniformCostSearch.search\<close> succeeds, its path
  is the node list of a route from start to goal whose cost is \<^verbatim>\<open>total_cost\<close>, and that
  cost is at most the cost of \<open>hs\<close>; if no route leads there, it fails.
\<close>

theorem ucs_optimal:
  assumes "nonneg_costs g"
    and "map_of (weighted_adjacency g) start \<noteq> None"
    and "map_of (weighted_adjacency g) goal \<noteq> None"
  shows "(is_route g start hs goal \<longrightarrow>
            success (UniformCostSearch_search g start goal) \<and>
            (\<exists>hs'. is_route g start hs' goal \<and>
                   path (UniformCostSearch_search g start goal) = start # map fst hs' \<and>
                   total_cost (UniformCostSearch_search g start goal) = hops_cost hs') \<and>
            total_cost (UniformCostSearch_search g start goal) \<le> hops_cost hs) \<and>
         ((\<forall>hs'. \<not> is_route g start hs' goal) \<longrightarrow>
            \<not> success (UniformCostSearch_search g start goal) \<and>
            path (UniformCostSearch_search g start goal) = [])"
  using ucs_search_correct[OF assms] unfolding ucs_post_def by blast

theorem ucs_optimal_witness:
  "nonneg_costs g2 \<and> is_route g2 ''A'' [(''C'', 10)] ''C'' \<and>
   UniformCostSearch_search g2 ''A'' ''C''
     = \<lparr>path = [''A'', ''B'', ''C''], success = True, total_cost = 5\<rparr> \<and>
   total_cost (UniformCostSearch_search g2 ''A'' ''C'') \<le> 10 \<and>
   \<not> success (UniformCostSearch_search g2 ''A'' ''E'')"
proof -
  have nn: "nonneg_costs g2" by code_simp
  have a: "map_of (weighted_adjacency g2) ''A'' \<noteq> None" by code_simp
  have c: "map_of (weighted_adjacency g2) ''C'' \<noteq> None" by code_simp
  have e: "map_of (weighted_adjacency g2) ''E'' \<noteq> None" by code_simp
  have r: "is_route g2 ''A'' [(''C'', 10)] ''C''" by code_simp
  have h: "hops_cost [(''C'', 10)] = 10" by code_simp
  have v: "UniformCostSearch_search g2 ''A'' ''C''
     = \<lparr>path = [''A'', ''B'', ''C''], success = True, total_cost = 5\<rparr>" by code_simp
  have u: "\<not> success (UniformCostSearch_search g2 ''A'' ''E'')" by code_simp
  from ucs_optimal[OF nn a c, of "[(''C'', 10)]"] r h
  have "total_cost (UniformCostSearch_search g2 ''A'' ''C'') \<le> 10" by simp
  then show ?thesis using nn r v u by simp
qed

section \<open>A* with a zero heuristic agrees with uniform-cost search\<close>

lemma zero_heuristicD: "zero_heuristic heuristics \<Longrightarrow> get_heuristic heuristics n = 0"
proof (cases "map_of heuristics n")
  case None
  then show ?thesis by (simp add: get_heuristic_def)
next
  case (Some h)
  assume z: "zero_heuristic heuristics"
  from Some have "(n, h) \<in> set heuristics" by (rule map_of_SomeD)
  then have "h = 0" using z unfolding zero_heuristic_def list_all_iff by fastforce
  then show ?thesis using Some by (simp add: get_heuristic_def)
qed

lemma astar_inv_initial:
  assumes "zero_heuristic heuristics"
  shows "astar_inv g s goal [(get_heuristic heuristics s, 0, 0, s, [s])] [s \<mapsto> 0]"
  unfolding astar_inv_def
  by (auto simp: zero_heuristicD[OF assms] acity_def gval_def hops_cost_def is_route_Nil
           intro!: exI[of _ "[]"])

lemma astar_frontier:
  assumes inv: "astar_inv g s goal pq g_scores" and nn: "nonneg_costs g"
  shows "is_route g s hs t \<Longrightarrow>
         (\<exists>e\<in>set pq. gval e \<le> hops_cost hs) \<or>
         (\<exists>d. g_scores t = Some d \<and> d \<le> hops_cost hs \<and> closed_node g goal g_scores t d)"
proof (induction hs arbitrary: t rule: rev_induct)
  case Nil
  then have ts: "t = s" by (simp add: is_route_Nil)
  obtain d where d: "g_scores s = Some d" "d \<le> 0" using inv unfolding astar_inv_def by blast
  have "(\<exists>e\<in>set pq. acity e = s \<and> gval e = d) \<or> closed_node g goal g_scores s d"
    using inv d(1) unfolding astar_inv_def by blast
  then show ?case using d ts by (auto simp: hops_cost_def)
next
  case (snoc h hs)
  obtain y w where h: "h = (y, w)" by (cases h)
  from snoc.prems obtain x where ty: "t = y" and x: "is_route g s hs x"
    and e: "(y, w) \<in> set (get_weighted_neighbors g x)"
    unfolding h is_route_snoc by blast
  have w0: "0 \<le> w" using nn e by (rule nonneg_costsD)
  from snoc.IH[OF x] show ?case
  proof
    assume "\<exists>e\<in>set pq. gval e \<le> hops_cost hs"
    then obtain e' where "e' \<in> set pq" "gval e' \<le> hops_cost hs" by blast
    then have "\<exists>e\<in>set pq. gval e \<le> hops_cost (hs @ [h])"
      using w0 unfolding h hops_cost_snoc by force
    then show ?thesis ..
  next
    assume "\<exists>d. g_scores x = Some d \<and> d \<le> hops_cost hs \<and> closed_node g goal g_scores x d"
    then obtain d where d: "g_scores x = Some d" "d \<le> hops_cost hs"
      and cl: "closed_node g goal g_scores x d" by blast
    from cl e obtain d' where d': "g_scores y = Some d'" "d' \<le> d + w"
      unfolding closed_node_def by blast
    have le: "d' \<le> hops_cost (hs @ [h])" using d(2) d'(2) unfolding h hops_cost_snoc by simp
    have "(\<exists>e\<in>set pq. acity e = y \<and> gval e = d') \<or> closed_node g goal g_scores y d'"
      using inv d'(1) unfolding astar_inv_def by blast
    then show ?thesis
    proof
      assume "\<exists>e\<in>set pq. acity e = y \<and> gval e = d'"
      then obtain e' where "e' \<in> set pq" "gval e' = d'" by blast
      then have "\<exists>e\<in>set pq. gval e \<le> hops_cost (hs @ [h])" using le by force
      then show ?thesis ..
    next
      assume "closed_node g goal g_scores y d'"
      then show ?thesis using d'(1) le ty by blast
    qed
  qed
qed

lemma astar_rank_update:
  assumes fin: "finite U" and dom: "dom gs \<subseteq> U" and y: "y \<in> U" and t: "0 \<le> t"
    and imp: "case gs y of None \<Rightarrow> True | Some d \<Rightarrow> t < d"
  shows "astar_rank U (gs(y \<mapsto> t)) < astar_rank U gs"
proof (cases "gs y")
  case None
  then have yin: "y \<in> U - dom gs" using y by (simp add: domIff)
  have eq: "U - dom (gs(y \<mapsto> t)) = (U - dom gs) - {y}" by auto
  have "finite (U - dom gs)" using fin by simp
  then have "card ((U - dom gs) - {y}) < card (U - dom gs)"
    using yin by (rule card_Diff1_less)
  then have "card (U - dom (gs(y \<mapsto> t))) < card (U - dom gs)"
    unfolding eq .
  then show ?thesis by (simp add: astar_rank_def less_prod_def)
next
  case (Some d)
  then have td: "t < d" using imp by simp
  have yd: "y \<in> dom gs" using Some by (simp add: domIff)
  have fd: "finite (dom gs)" using fin dom by (rule rev_finite_subset)
  have d: "dom (gs(y \<mapsto> t)) = dom gs" using yd by auto
  have "(\<Sum>x\<in>dom gs. nat (the ((gs(y \<mapsto> t)) x))) < (\<Sum>x\<in>dom gs. nat (the (gs x)))"
  proof (rule sum_strict_mono_ex1[OF fd])
    show "\<forall>x\<in>dom gs. nat (the ((gs(y \<mapsto> t)) x)) \<le> nat (the (gs x))"
      using Some td by auto
    show "\<exists>a\<in>dom gs. nat (the ((gs(y \<mapsto> t)) a)) < nat (the (gs a))"
      using yd Some td t by (intro bexI[of _ y]) auto
  qed
  then show ?thesis unfolding astar_rank_def d by (simp add: less_prod_def)
qed

lemma astar_expand_ok:
  assumes z: "zero_heuristic heuristics" and fin: "finite U" and gv: "0 \<le> gv"
  shows "astar_expand heuristics gv p ns pq gs counter = (pq'', gs', counter') \<Longrightarrow>
         dom gs \<subseteq> U \<Longrightarrow> fst ` set ns \<subseteq> U \<Longrightarrow> \<forall>(y, w)\<in>set ns. 0 \<le> w \<Longrightarrow>
         \<forall>x d. gs x = Some d \<longrightarrow> 0 \<le> d \<Longrightarrow>
         \<exists>new. pq'' = pq @ new \<and> expand_ok U gv p ns gs new gs'"
proof (induction ns arbitrary: pq gs counter)
  case Nil
  then show ?case by (simp add: expand_ok_def)
next
  case (Cons a ns)
  obtain y w where a: "a = (y, w)" by (cases a)
  have w0: "0 \<le> w" using Cons.prems(4) a by simp
  have yU: "y \<in> U" using Cons.prems(3) a by simp
  have nsU: "fst ` set ns \<subseteq> U" and nsW: "\<forall>(y, w)\<in>set ns. 0 \<le> w"
    using Cons.prems(3,4) by auto
  show ?case
  proof (cases "case gs y of None \<Rightarrow> True | Some sc \<Rightarrow> gv + w < sc")
    case True
    let ?e = "(gv + w, gv + w, counter + 1, y, p @ [y])"
    let ?gs1 = "gs(y \<mapsto> gv + w)"
    have ex: "astar_expand heuristics gv p ns (pq @ [?e]) ?gs1 (counter + 1) = (pq'', gs', counter')"
      using Cons.prems(1) a True by (simp add: Let_def heappush_def zero_heuristicD[OF z])
    have d1: "dom ?gs1 \<subseteq> U" using Cons.prems(2) yU by auto
    have v1: "\<forall>x d. ?gs1 x = Some d \<longrightarrow> 0 \<le> d" using Cons.prems(5) gv w0 by auto
    from Cons.IH[OF ex d1 nsU nsW v1] obtain new where
      pq'': "pq'' = (pq @ [?e]) @ new" and ok: "expand_ok U gv p ns ?gs1 new gs'" by blast
    have r1: "astar_rank U ?gs1 < astar_rank U gs"
      using fin Cons.prems(2) yU _ True by (rule astar_rank_update) (use gv w0 in simp)
    have E1: "\<forall>e\<in>set (?e # new). \<exists>y' w' k. e = (gv + w', gv + w', k, y', p @ [y']) \<and> (y', w') \<in> set (a # ns)"
      using ok a unfolding expand_ok_def by auto
    have E2: "\<forall>x. gs' x = gs x \<or> (\<exists>e\<in>set (?e # new). acity e = x \<and> gs' x = Some (gval e))"
    proof
      fix x
      from ok have "gs' x = ?gs1 x \<or> (\<exists>e\<in>set new. acity e = x \<and> gs' x = Some (gval e))"
        unfolding expand_ok_def by blast
      then show "gs' x = gs x \<or> (\<exists>e\<in>set (?e # new). acity e = x \<and> gs' x = Some (gval e))"
        by (cases "x = y") (auto simp: acity_def gval_def)
    qed
    have E3: "\<forall>x d. gs x = Some d \<longrightarrow> (\<exists>d'. gs' x = Some d' \<and> d' \<le> d)"
    proof (intro allI impI)
      fix x d assume xd: "gs x = Some d"
      have "\<exists>d1. ?gs1 x = Some d1 \<and> d1 \<le> d" using xd True by (cases "x = y") auto
      then obtain d1 where "?gs1 x = Some d1" "d1 \<le> d" by blast
      moreover from this ok obtain d' where "gs' x = Some d'" "d' \<le> d1"
        unfolding expand_ok_def by blast
      ultimately show "\<exists>d'. gs' x = Some d' \<and> d' \<le> d" by force
    qed
    have E4: "\<forall>(y', w')\<in>set (a # ns). \<exists>d'. gs' y' = Some d' \<and> d' \<le> gv + w'"
    proof -
      have "?gs1 y = Some (gv + w)" by simp
      with ok obtain d' where "gs' y = Some d'" "d' \<le> gv + w" unfolding expand_ok_def by blast
      then show ?thesis using ok a unfolding expand_ok_def by auto
    qed
    have E5: "dom gs' \<subseteq> U \<and> (\<forall>x d. gs' x = Some d \<longrightarrow> 0 \<le> d)"
      using ok unfolding expand_ok_def by blast
    have E6: "astar_rank U gs' < astar_rank U gs"
    proof -
      from ok have "(new = [] \<and> gs' = ?gs1) \<or> astar_rank U gs' < astar_rank U ?gs1"
        unfolding expand_ok_def by blast
      then show ?thesis using r1 by (auto intro: less_trans)
    qed
    have "pq'' = pq @ (?e # new)" using pq'' by simp
    moreover have "expand_ok U gv p (a # ns) gs (?e # new) gs'"
      unfolding expand_ok_def using E1 E2 E3 E4 E5 E6 by blast
    ultimately show ?thesis by blast
  next
    case False
    then obtain sc where sc: "gs y = Some sc" "sc \<le> gv + w"
      by (cases "gs y") auto
    have ex: "astar_expand heuristics gv p ns pq gs counter = (pq'', gs', counter')"
      using Cons.prems(1) a False by (simp add: Let_def)
    from Cons.IH[OF ex Cons.prems(2) nsU nsW Cons.prems(5)] obtain new where
      pq'': "pq'' = pq @ new" and ok: "expand_ok U gv p ns gs new gs'" by blast
    have E1: "\<forall>e\<in>set new. \<exists>y' w' k. e = (gv + w', gv + w', k, y', p @ [y']) \<and> (y', w') \<in> set (a # ns)"
      using ok unfolding expand_ok_def by auto
    have E4: "\<forall>(y', w')\<in>set (a # ns). \<exists>d'. gs' y' = Some d' \<and> d' \<le> gv + w'"
    proof -
      from ok sc(1) obtain d' where "gs' y = Some d'" "d' \<le> sc" unfolding expand_ok_def by blast
      then have "\<exists>d'. gs' y = Some d' \<and> d' \<le> gv + w" using sc(2) by force
      then show ?thesis using ok a unfolding expand_ok_def by auto
    qed
    have "expand_ok U gv p (a # ns) gs new gs'"
      unfolding expand_ok_def using E1 E4 ok unfolding expand_ok_def by blast
    then show ?thesis using pq'' by blast
  qed
qed

lemma heappop_length: "pq \<noteq> [] \<Longrightarrow> length (snd (heappop pq)) < length pq"
proof -
  assume ne: "pq \<noteq> []"
  then have "Min (set pq) \<in> set pq" by simp
  moreover have "0 < length pq" using ne by simp
  ultimately show ?thesis by (simp add: heappop_def length_remove1)
qed

lemma astar_pop_entry:
  assumes inv: "astar_inv g s goal pq gs" and ne: "pq \<noteq> []"
    and e: "fst (heappop pq) = (f, gv, k, n, p)"
  shows "f = gv \<and> (\<exists>hs. is_route g s hs n \<and> p = s # map fst hs \<and> gv = hops_cost hs)"
proof -
  have "(f, gv, k, n, p) \<in> set pq" using heappop_in[OF ne] e by simp
  then show ?thesis using inv unfolding astar_inv_def by blast
qed

lemma astar_entry_f:
  assumes inv: "astar_inv g s goal pq gs" and "e \<in> set pq"
  shows "fst e = gval e"
proof -
  obtain f gv k n p where "e = (f, gv, k, n, p)" by (cases e) auto
  then show ?thesis using assms unfolding astar_inv_def gval_def by fastforce
qed

lemma astar_pop_optimal:
  assumes inv: "astar_inv g s goal pq gs" and nn: "nonneg_costs g" and ne: "pq \<noteq> []"
    and e: "fst (heappop pq) = (f, gv, k, goal, p)" and r: "is_route g s hs goal"
  shows "gv \<le> hops_cost hs"
proof -
  from astar_frontier[OF inv nn r] have "\<exists>e\<in>set pq. gval e \<le> hops_cost hs"
    unfolding closed_node_def by blast
  then obtain e' where e': "e' \<in> set pq" "gval e' \<le> hops_cost hs" by blast
  have "fst (fst (heappop pq)) \<le> fst e'" using e'(1) by (rule heappop_min_cost)
  moreover have "fst e' = gval e'" using inv e'(1) by (rule astar_entry_f)
  moreover have "f = gv" using astar_pop_entry[OF inv ne e] by simp
  ultimately show ?thesis using e e'(2) by simp
qed

lemma astar_inv_skip:
  assumes inv: "astar_inv g s goal pq gs" and ne: "pq \<noteq> []"
    and e: "fst (heappop pq) = (f, gv, k, n, p)" and sc: "gs n = Some sc" "sc < gv"
  shows "astar_inv g s goal (snd (heappop pq)) gs"
proof -
  let ?pq' = "snd (heappop pq)"
  have sub: "set ?pq' \<subseteq> set pq" by (rule heappop_rest_subset)
  have 1: "\<exists>d. gs s = Some d \<and> d \<le> 0" using inv unfolding astar_inv_def by blast
  have 2: "\<forall>(f, gv, k, n, p)\<in>set ?pq'.
        f = gv \<and> (\<exists>hs. is_route g s hs n \<and> p = s # map fst hs \<and> gv = hops_cost hs)"
    using inv sub unfolding astar_inv_def by blast
  have 3: "\<forall>x d. gs x = Some d \<longrightarrow>
        0 \<le> d \<and> ((\<exists>e\<in>set ?pq'. acity e = x \<and> gval e = d) \<or> closed_node g goal gs x d)"
  proof (intro allI impI)
    fix x d assume xd: "gs x = Some d"
    have a: "0 \<le> d" using inv xd unfolding astar_inv_def by blast
    have "(\<exists>e\<in>set pq. acity e = x \<and> gval e = d) \<or> closed_node g goal gs x d"
      using inv xd unfolding astar_inv_def by blast
    then have b: "(\<exists>e\<in>set ?pq'. acity e = x \<and> gval e = d) \<or> closed_node g goal gs x d"
    proof
      assume "\<exists>e\<in>set pq. acity e = x \<and> gval e = d"
      then obtain e' where e': "e' \<in> set pq" "acity e' = x" "gval e' = d" by blast
      have "e' \<noteq> fst (heappop pq)"
      proof
        assume "e' = fst (heappop pq)"
        then have "x = n" "d = gv" using e' e by (simp_all add: acity_def gval_def)
        then show False using xd sc by simp
      qed
      with e'(1) have "e' \<in> set ?pq'" by (rule heappop_rest_other)
      then show ?thesis using e' by blast
    next
      assume "closed_node g goal gs x d"
      then show ?thesis ..
    qed
    show "0 \<le> d \<and> ((\<exists>e\<in>set ?pq'. acity e = x \<and> gval e = d) \<or> closed_node g goal gs x d)"
      using a b by blast
  qed
  have 4: "dom gs \<subseteq> insert s (all_weighted_neighbors g)" using inv unfolding astar_inv_def by blast
  show ?thesis unfolding astar_inv_def using 1 2 3 4 by blast
qed

lemma astar_inv_expand:
  assumes inv: "astar_inv g s goal pq gs" and nn: "nonneg_costs g"
    and z: "zero_heuristic heuristics" and ne: "pq \<noteq> []"
    and e: "fst (heappop pq) = (f, gv, k, n, p)" and ng: "n \<noteq> goal"
    and ex: "astar_expand heuristics gv p (get_weighted_neighbors g n) (snd (heappop pq)) gs counter
             = (pq'', gs', counter')"
  shows "astar_inv g s goal pq'' gs' \<and>
         ((pq'' = snd (heappop pq) \<and> gs' = gs) \<or>
          astar_rank (insert s (all_weighted_neighbors g)) gs'
            < astar_rank (insert s (all_weighted_neighbors g)) gs)"
proof -
  let ?pq' = "snd (heappop pq)"
  let ?U = "insert s (all_weighted_neighbors g)"
  let ?ns = "get_weighted_neighbors g n"
  obtain hsn where feq: "f = gv" and hsn: "is_route g s hsn n" "p = s # map fst hsn" "gv = hops_cost hsn"
    using astar_pop_entry[OF inv ne e] by blast
  have gv0: "0 \<le> gv" using hops_cost_nonneg[OF nn hsn(1)] hsn(3) by simp
  have fin: "finite ?U" by (simp add: finite_all_weighted_neighbors)
  have dU: "dom gs \<subseteq> ?U" using inv unfolding astar_inv_def by blast
  have nU: "fst ` set ?ns \<subseteq> ?U" using get_weighted_neighbors_subset[of g n] by auto
  have nW: "\<forall>(y, w)\<in>set ?ns. 0 \<le> w" using nonneg_costsD[OF nn] by blast
  have v0: "\<forall>x d. gs x = Some d \<longrightarrow> 0 \<le> d" using inv unfolding astar_inv_def by blast
  from astar_expand_ok[OF z fin gv0 ex dU nU nW v0] obtain new where
    pq'': "pq'' = ?pq' @ new" and ok: "expand_ok ?U gv p ?ns gs new gs'" by blast
  have sub: "set ?pq' \<subseteq> set pq" by (rule heappop_rest_subset)
  have E1: "\<forall>e\<in>set new. \<exists>y w k. e = (gv + w, gv + w, k, y, p @ [y]) \<and> (y, w) \<in> set ?ns"
    and E2: "\<forall>x. gs' x = gs x \<or> (\<exists>e\<in>set new. acity e = x \<and> gs' x = Some (gval e))"
    and E3: "\<forall>x d. gs x = Some d \<longrightarrow> (\<exists>d'. gs' x = Some d' \<and> d' \<le> d)"
    and E4: "\<forall>(y, w)\<in>set ?ns. \<exists>d'. gs' y = Some d' \<and> d' \<le> gv + w"
    and E5: "dom gs' \<subseteq> ?U" and E6: "\<forall>x d. gs' x = Some d \<longrightarrow> 0 \<le> d"
    and E7: "(new = [] \<and> gs' = gs) \<or> astar_rank ?U gs' < astar_rank ?U gs"
    using ok unfolding expand_ok_def by blast+
  have closed_mono: "\<And>x d. closed_node g goal gs x d \<Longrightarrow> closed_node g goal gs' x d"
  proof -
    fix x d assume c: "closed_node g goal gs x d"
    show "closed_node g goal gs' x d"
      unfolding closed_node_def
    proof (intro conjI ballI)
      show "x \<noteq> goal" using c unfolding closed_node_def by blast
    next
      fix yw assume yw: "yw \<in> set (get_weighted_neighbors g x)"
      obtain y w where "yw = (y, w)" by (cases yw)
      with c yw obtain d1 where "gs y = Some d1" "d1 \<le> d + w" unfolding closed_node_def by blast
      moreover from this E3 obtain d2 where "gs' y = Some d2" "d2 \<le> d1" by blast
      ultimately have "\<exists>d'. gs' y = Some d' \<and> d' \<le> d + w" by force
      then show "case yw of (y, w) \<Rightarrow> \<exists>d'. gs' y = Some d' \<and> d' \<le> d + w"
        using \<open>yw = (y, w)\<close> by simp
    qed
  qed
  have n_closed: "closed_node g goal gs' n gv"
    unfolding closed_node_def using ng E4 by blast
  have 1: "\<exists>d. gs' s = Some d \<and> d \<le> 0"
  proof -
    obtain d where "gs s = Some d" "d \<le> 0" using inv unfolding astar_inv_def by blast
    moreover from this E3 obtain d' where "gs' s = Some d'" "d' \<le> d" by blast
    ultimately show ?thesis by force
  qed
  have 2: "\<forall>(f', gv', k', n', p')\<in>set pq''.
        f' = gv' \<and> (\<exists>hs. is_route g s hs n' \<and> p' = s # map fst hs \<and> gv' = hops_cost hs)"
  proof (intro ballI)
    fix e' assume m: "e' \<in> set pq''"
    obtain f' gv' k' n' p' where e': "e' = (f', gv', k', n', p')" by (cases e') auto
    have "f' = gv' \<and> (\<exists>hs. is_route g s hs n' \<and> p' = s # map fst hs \<and> gv' = hops_cost hs)"
    proof (cases "e' \<in> set ?pq'")
      case True
      then have "(f', gv', k', n', p') \<in> set pq" using sub e' by blast
      then show ?thesis using inv unfolding astar_inv_def by blast
    next
      case False
      then have "e' \<in> set new" using m pq'' by simp
      then obtain w where f': "f' = gv + w" and g': "gv' = gv + w" and p': "p' = p @ [n']"
        and yw: "(n', w) \<in> set ?ns"
        using E1 e' by blast
      have "is_route g s (hsn @ [(n', w)]) n'"
        unfolding is_route_snoc using hsn(1) yw by blast
      moreover have "p' = s # map fst (hsn @ [(n', w)])" using p' hsn(2) by simp
      moreover have "gv' = hops_cost (hsn @ [(n', w)])" using g' hsn(3) by (simp add: hops_cost_snoc)
      ultimately have "\<exists>hs. is_route g s hs n' \<and> p' = s # map fst hs \<and> gv' = hops_cost hs"
        by blast
      moreover have "f' = gv'" using f' g' by simp
      ultimately show ?thesis by simp
    qed
    then show "case e' of (f', gv', k', n', p') \<Rightarrow>
        f' = gv' \<and> (\<exists>hs. is_route g s hs n' \<and> p' = s # map fst hs \<and> gv' = hops_cost hs)"
      using e' by simp
  qed
  have 3: "\<forall>x d. gs' x = Some d \<longrightarrow>
        0 \<le> d \<and> ((\<exists>e\<in>set pq''. acity e = x \<and> gval e = d) \<or> closed_node g goal gs' x d)"
  proof (intro allI impI)
    fix x d assume xd: "gs' x = Some d"
    have a: "0 \<le> d" using E6 xd by blast
    from E2 have "gs' x = gs x \<or> (\<exists>e\<in>set new. acity e = x \<and> gs' x = Some (gval e))" by blast
    then have b: "(\<exists>e\<in>set pq''. acity e = x \<and> gval e = d) \<or> closed_node g goal gs' x d"
    proof
      assume "\<exists>e\<in>set new. acity e = x \<and> gs' x = Some (gval e)"
      then obtain e' where "e' \<in> set new" "acity e' = x" "gval e' = d" using xd by auto
      then have "\<exists>e\<in>set pq''. acity e = x \<and> gval e = d" using pq'' by auto
      then show ?thesis ..
    next
      assume "gs' x = gs x"
      then have old: "gs x = Some d" using xd by simp
      have "(\<exists>e\<in>set pq. acity e = x \<and> gval e = d) \<or> closed_node g goal gs x d"
        using inv old unfolding astar_inv_def by blast
      then show ?thesis
      proof
        assume "closed_node g goal gs x d"
        then show ?thesis using closed_mono by blast
      next
        assume "\<exists>e\<in>set pq. acity e = x \<and> gval e = d"
        then obtain e' where e': "e' \<in> set pq" "acity e' = x" "gval e' = d" by blast
        show ?thesis
        proof (cases "e' = fst (heappop pq)")
          case True
          then have "x = n" "d = gv" using e' e by (simp_all add: acity_def gval_def)
          then show ?thesis using n_closed by simp
        next
          case False
          with e'(1) have "e' \<in> set ?pq'" by (rule heappop_rest_other)
          then have "e' \<in> set pq''" using pq'' by simp
          then show ?thesis using e' by blast
        qed
      qed
    qed
    show "0 \<le> d \<and> ((\<exists>e\<in>set pq''. acity e = x \<and> gval e = d) \<or> closed_node g goal gs' x d)"
      using a b by blast
  qed
  have "astar_inv g s goal pq'' gs'" unfolding astar_inv_def using 1 2 3 E5 by blast
  moreover have "(pq'' = ?pq' \<and> gs' = gs) \<or> astar_rank ?U gs' < astar_rank ?U gs"
    using E7 pq'' by auto
  ultimately show ?thesis by blast
qed

lemma astar_loop_correct:
  assumes nn: "nonneg_costs g" and z: "zero_heuristic heuristics"
  shows "astar_inv g s goal pq gs \<Longrightarrow>
         \<exists>r. astar_loop g heuristics goal pq gs counter = Some r \<and> ucs_post g s goal r"
proof (induction "(astar_rank (insert s (all_weighted_neighbors g)) gs, length pq)"
        arbitrary: pq gs counter rule: less_induct)
  case less
  note inv = less.prems
  let ?U = "insert s (all_weighted_neighbors g)"
  show ?case
  proof (cases "pq = []")
    case True
    have "\<And>hs. \<not> is_route g s hs goal"
    proof
      fix hs assume "is_route g s hs goal"
      from astar_frontier[OF inv nn this] show False
        using True unfolding closed_node_def by simp
    qed
    moreover have "astar_loop g heuristics goal pq gs counter
                   = Some \<lparr>path = [], success = False, total_cost = 0\<rparr>"
      unfolding True by (subst astar_loop.simps) simp
    ultimately show ?thesis by (simp add: ucs_post_def)
  next
    case ne: False
    obtain e0 pq' where hp0: "heappop pq = (e0, pq')" by (cases "heappop pq")
    obtain f gv k n p where e0: "e0 = (f, gv, k, n, p)" by (cases e0) auto
    have hp: "heappop pq = ((f, gv, k, n, p), pq')" using hp0 e0 by simp
    have e: "fst (heappop pq) = (f, gv, k, n, p)" and pq': "snd (heappop pq) = pq'"
      using hp by simp_all
    have len: "length pq' < length pq" using heappop_length[OF ne] pq' by simp
    show ?thesis
    proof (cases "case gs n of None \<Rightarrow> False | Some sc \<Rightarrow> sc < gv")
      case True
      then obtain sc where sc: "gs n = Some sc" "sc < gv" by (cases "gs n") auto
      have res: "astar_loop g heuristics goal pq gs counter
                 = astar_loop g heuristics goal pq' gs counter"
        using ne True by (simp add: astar_loop.simps[of g heuristics goal pq gs counter] hp)
      have inv': "astar_inv g s goal pq' gs"
        using astar_inv_skip[OF inv ne e sc] pq' by simp
      have "(astar_rank ?U gs, length pq') < (astar_rank ?U gs, length pq)"
        using len by (simp add: less_prod_def)
      from less.hyps[OF this inv'] show ?thesis unfolding res .
    next
      case False
      show ?thesis
      proof (cases "n = goal")
        case True
        have res: "astar_loop g heuristics goal pq gs counter
                   = Some \<lparr>path = p, success = True, total_cost = gv\<rparr>"
          using ne False True by (simp add: astar_loop.simps[of g heuristics goal pq gs counter] hp)
        have "\<exists>hs. is_route g s hs goal \<and> p = s # map fst hs \<and> gv = hops_cost hs"
          using astar_pop_entry[OF inv ne e] True by simp
        moreover have "\<forall>hs. is_route g s hs goal \<longrightarrow> gv \<le> hops_cost hs"
          using astar_pop_optimal[OF inv nn ne] e True by blast
        ultimately show ?thesis unfolding res ucs_post_def by simp
      next
        case ng: False
        obtain pq'' gs' counter' where ex:
          "astar_expand heuristics gv p (get_weighted_neighbors g n) pq' gs counter
           = (pq'', gs', counter')"
          by (cases "astar_expand heuristics gv p (get_weighted_neighbors g n) pq' gs counter") auto
        have res: "astar_loop g heuristics goal pq gs counter
                   = astar_loop g heuristics goal pq'' gs' counter'"
          using ne False ng ex
          by (simp add: astar_loop.simps[of g heuristics goal pq gs counter] hp)
        have ex': "astar_expand heuristics gv p (get_weighted_neighbors g n) (snd (heappop pq)) gs counter
           = (pq'', gs', counter')" using ex pq' by simp
        from astar_inv_expand[OF inv nn z ne e ng ex']
        have inv': "astar_inv g s goal pq'' gs'"
          and dec: "(pq'' = pq' \<and> gs' = gs) \<or> astar_rank ?U gs' < astar_rank ?U gs"
          unfolding pq' by blast+
        have "(astar_rank ?U gs', length pq'') < (astar_rank ?U gs, length pq)"
          using dec len by (auto simp: less_prod_def)
        from less.hyps[OF this inv'] show ?thesis unfolding res .
      qed
    qed
  qed
qed

lemma astar_search_correct:
  assumes nn: "nonneg_costs g" and z: "zero_heuristic heuristics"
    and s: "map_of (weighted_adjacency g) start \<noteq> None"
    and t: "map_of (weighted_adjacency g) goal \<noteq> None"
  shows "\<exists>r. AStarSearch_search g heuristics start goal = Some r \<and> ucs_post g start goal r"
proof (cases "start = goal")
  case True
  have "is_route g start [] goal" using True by (simp add: is_route_Nil)
  moreover have "\<forall>hs. is_route g start hs goal \<longrightarrow> 0 \<le> hops_cost hs"
    using hops_cost_nonneg[OF nn] by blast
  ultimately show ?thesis using s t True
    by (auto simp: AStarSearch_search_def ucs_post_def hops_cost_def intro!: exI[of _ "[]"])
next
  case False
  have res: "AStarSearch_search g heuristics start goal
             = astar_loop g heuristics goal
                 [(get_heuristic heuristics start, 0, 0, start, [start])] [start \<mapsto> 0] 0"
    using s t False by (auto simp: AStarSearch_search_def)
  show ?thesis unfolding res
    using astar_inv_initial[OF z] by (rule astar_loop_correct[OF nn z])
qed

lemma ucs_post_agree:
  assumes "ucs_post g s t r" "ucs_post g s t r'"
  shows "success r = success r' \<and> (success r \<longrightarrow> total_cost r = total_cost r')"
proof -
  have "success r \<longleftrightarrow> (\<exists>hs. is_route g s hs t)" using assms(1) unfolding ucs_post_def by blast
  moreover have "success r' \<longleftrightarrow> (\<exists>hs. is_route g s hs t)"
    using assms(2) unfolding ucs_post_def by blast
  ultimately have eq: "success r = success r'" by simp
  have "total_cost r = total_cost r'" if sr: "success r"
  proof -
    have sr': "success r'" using sr eq by simp
    obtain hs where hs: "is_route g s hs t" "total_cost r = hops_cost hs"
      using assms(1) sr unfolding ucs_post_def by blast
    obtain hs' where hs': "is_route g s hs' t" "total_cost r' = hops_cost hs'"
      using assms(2) sr' unfolding ucs_post_def by blast
    have "total_cost r \<le> hops_cost hs'" using assms(1) sr hs'(1) unfolding ucs_post_def by blast
    moreover have "total_cost r' \<le> hops_cost hs" using assms(2) sr' hs(1) unfolding ucs_post_def by blast
    ultimately show ?thesis using hs(2) hs'(2) by simp
  qed
  then show ?thesis using eq by blast
qed

text \<open>
  C2. With non-negative costs and a heuristics dict whose values are all 0,
  \<^verbatim>\<open>AStarSearch.search\<close> returns (its loop ends), with the same \<^verbatim>\<open>success\<close> as
  \<^verbatim>\<open>UniformCostSearch.search\<close> on the same graph, start and goal, and on success with
  the same \<^verbatim>\<open>total_cost\<close>. This holds for every start and goal, nodes of the graph or not.
\<close>

theorem astar_zero_heuristic_agrees_with_ucs:
  assumes nn: "nonneg_costs g" and z: "zero_heuristic heuristics"
  shows "\<exists>r. AStarSearch_search g heuristics start goal = Some r \<and>
             success r = success (UniformCostSearch_search g start goal) \<and>
             (success r \<longrightarrow> total_cost r = total_cost (UniformCostSearch_search g start goal))"
proof (cases "map_of (weighted_adjacency g) start = None \<or> map_of (weighted_adjacency g) goal = None")
  case True
  then show ?thesis
    by (auto simp: AStarSearch_search_def UniformCostSearch_search_def)
next
  case False
  then have s: "map_of (weighted_adjacency g) start \<noteq> None"
    and t: "map_of (weighted_adjacency g) goal \<noteq> None" by simp_all
  obtain r where r: "AStarSearch_search g heuristics start goal = Some r" "ucs_post g start goal r"
    using astar_search_correct[OF nn z s t] by blast
  have "ucs_post g start goal (UniformCostSearch_search g start goal)"
    using nn s t by (rule ucs_search_correct)
  from ucs_post_agree[OF r(2) this] r(1) show ?thesis by simp
qed

theorem astar_zero_heuristic_agrees_with_ucs_witness:
  "nonneg_costs g2 \<and> zero_heuristic [(''A'', 0), (''C'', 0)] \<and>
   AStarSearch_search g2 [(''A'', 0), (''C'', 0)] ''A'' ''C''
     = Some \<lparr>path = [''A'', ''B'', ''C''], success = True, total_cost = 5\<rparr> \<and>
   success (UniformCostSearch_search g2 ''A'' ''C'') \<and>
   total_cost (UniformCostSearch_search g2 ''A'' ''C'') = 5"
proof -
  have nn: "nonneg_costs g2" by code_simp
  have z: "zero_heuristic [(''A'', 0), (''C'', 0)]" by code_simp
  have a: "AStarSearch_search g2 [(''A'', 0), (''C'', 0)] ''A'' ''C''
     = Some \<lparr>path = [''A'', ''B'', ''C''], success = True, total_cost = 5\<rparr>" by code_simp
  from astar_zero_heuristic_agrees_with_ucs[OF nn z, of "''A''" "''C''"] a
  have "success (UniformCostSearch_search g2 ''A'' ''C'') \<and>
        total_cost (UniformCostSearch_search g2 ''A'' ''C'') = 5" by auto
  then show ?thesis using nn z a by simp
qed

section \<open>The greedy multi-goal search\<close>

text \<open>
  What the \<^verbatim>\<open>for goal in unvisited_goals\<close> loop leaves in \<^verbatim>\<open>(best_goal, best_result)\<close>:
  nothing when no goal is reached, else a goal of the set with its UCS result, which
  costs no more than the result of any other reached goal.
\<close>

lemma select_best_spec:
  assumes "best = None \<or>
           (\<exists>bg. best = Some (bg, UniformCostSearch_search g cur bg) \<and>
                 success (UniformCostSearch_search g cur bg))"
  shows "case select_best g cur goals best of
           None \<Rightarrow> best = None \<and> (\<forall>x\<in>set goals. \<not> success (UniformCostSearch_search g cur x))
         | Some (bg, br) \<Rightarrow>
             br = UniformCostSearch_search g cur bg \<and> success br \<and>
             (bg \<in> set goals \<or> best = Some (bg, br)) \<and>
             (\<forall>x\<in>set goals. success (UniformCostSearch_search g cur x) \<longrightarrow>
                 total_cost br \<le> total_cost (UniformCostSearch_search g cur x)) \<and>
             (\<forall>bg0 br0. best = Some (bg0, br0) \<longrightarrow> total_cost br \<le> total_cost br0)"
  using assms
proof (induction goals arbitrary: best)
  case Nil
  then show ?case by (auto split: option.splits)
next
  case (Cons a goals)
  let ?r = "UniformCostSearch_search g cur a"
  show ?case
  proof (cases "success ?r \<and> (case best of None \<Rightarrow> True
                                 | Some (best_goal, best_result) \<Rightarrow> total_cost ?r < total_cost best_result)")
    case True
    then have step: "select_best g cur (a # goals) best = select_best g cur goals (Some (a, ?r))"
      by (simp add: Let_def)
    have "Some (a, ?r) = None \<or>
           (\<exists>bg. Some (a, ?r) = Some (bg, UniformCostSearch_search g cur bg) \<and>
                 success (UniformCostSearch_search g cur bg))"
      using True by simp
    from Cons.IH[OF this] True show ?thesis
      unfolding step by (auto split: option.splits)
  next
    case False
    then have step: "select_best g cur (a # goals) best = select_best g cur goals best"
      by (auto simp: Let_def)
    from Cons.IH[OF Cons.prems] False show ?thesis
      unfolding step by (auto split: option.splits)
  qed
qed

lemma select_best_None:
  "select_best g cur goals None = None \<longleftrightarrow>
     (\<forall>x\<in>set goals. \<not> success (UniformCostSearch_search g cur x))"
  using select_best_spec[of None g cur goals] by (auto split: option.splits)

lemma select_best_Some:
  assumes "select_best g cur goals None = Some (bg, br)"
  shows "bg \<in> set goals \<and> br = UniformCostSearch_search g cur bg \<and> success br \<and>
         (\<forall>x\<in>set goals. success (UniformCostSearch_search g cur x) \<longrightarrow>
             total_cost br \<le> total_cost (UniformCostSearch_search g cur x))"
  using select_best_spec[of None g cur goals] assms by auto

lemma multi_goal_loop_done:
  "multi_goal_loop g [] cur cp cost order
     = \<lparr>complete_path = cp, route_cost = cost, visit_order = order, all_visited = True\<rparr>"
  by (simp add: multi_goal_loop.simps[of g "[]"])

lemma multi_goal_loop_fail:
  assumes "unvisited \<noteq> []" "select_best g cur unvisited None = None"
  shows "multi_goal_loop g unvisited cur cp cost order
     = \<lparr>complete_path = cp, route_cost = cost, visit_order = order, all_visited = False\<rparr>"
  using assms by (simp add: multi_goal_loop.simps[of g unvisited])

lemma multi_goal_loop_step:
  assumes "unvisited \<noteq> []" "select_best g cur unvisited None = Some (bg, br)"
  shows "multi_goal_loop g unvisited cur cp cost order
     = multi_goal_loop g (remove1 bg unvisited) bg (cp @ drop 1 (path br))
         (cost + total_cost br) (order @ [bg])"
  using assms by (simp add: multi_goal_loop.simps[of g unvisited])

lemma multi_goal_loop_visits:
  "distinct unvisited \<Longrightarrow>
   \<exists>extra. visit_order (multi_goal_loop g unvisited cur cp cost order) = order @ extra \<and>
           distinct extra \<and> set extra \<subseteq> set unvisited \<and>
           (all_visited (multi_goal_loop g unvisited cur cp cost order) \<longleftrightarrow>
              set extra = set unvisited)"
proof (induction g unvisited cur cp cost order rule: multi_goal_loop.induct)
  case (1 g unvisited cur cp cost order)
  show ?case
  proof (cases "unvisited = []")
    case True
    then show ?thesis by (simp add: multi_goal_loop_done)
  next
    case ne: False
    show ?thesis
    proof (cases "select_best g cur unvisited None")
      case None
      then show ?thesis using ne by (simp add: multi_goal_loop_fail)
    next
      case (Some b)
      obtain bg br where b: "b = (bg, br)" by (cases b)
      have sel: "select_best g cur unvisited None = Some (bg, br)" using Some b by simp
      have bgin: "bg \<in> set unvisited" using select_best_Some[OF sel] by simp
      have d': "distinct (remove1 bg unvisited)" using "1.prems" by simp
      from "1.IH"[OF ne Some b[symmetric] d'] obtain extra where
        vo: "visit_order (multi_goal_loop g (remove1 bg unvisited) bg (cp @ drop 1 (path br))
               (cost + total_cost br) (order @ [bg])) = (order @ [bg]) @ extra"
        and de: "distinct extra" and se: "set extra \<subseteq> set (remove1 bg unvisited)"
        and av: "all_visited (multi_goal_loop g (remove1 bg unvisited) bg (cp @ drop 1 (path br))
               (cost + total_cost br) (order @ [bg])) \<longleftrightarrow> set extra = set (remove1 bg unvisited)"
        by blast
      have sr: "set (remove1 bg unvisited) = set unvisited - {bg}"
        using "1.prems" by (rule set_remove1_eq)
      have "visit_order (multi_goal_loop g unvisited cur cp cost order) = order @ (bg # extra)"
        unfolding multi_goal_loop_step[OF ne sel] using vo by simp
      moreover have "distinct (bg # extra)" using de se sr by auto
      moreover have "set (bg # extra) \<subseteq> set unvisited" using se sr bgin by auto
      moreover have "all_visited (multi_goal_loop g unvisited cur cp cost order) \<longleftrightarrow>
              set (bg # extra) = set unvisited"
        unfolding multi_goal_loop_step[OF ne sel] using av sr bgin se by auto
      ultimately show ?thesis by blast
    qed
  qed
qed










lemma multi_goal_loop_all_reached:
  "(\<forall>c\<in>insert cur (set unvisited). \<forall>x\<in>set unvisited.
       success (UniformCostSearch_search g c x)) \<Longrightarrow>
   all_visited (multi_goal_loop g unvisited cur cp cost order)"
proof (induction g unvisited cur cp cost order rule: multi_goal_loop.induct)
  case (1 g unvisited cur cp cost order)
  show ?case
  proof (cases "unvisited = []")
    case True
    then show ?thesis by (simp add: multi_goal_loop_done)
  next
    case ne: False
    then obtain x where "x \<in> set unvisited" by (cases unvisited) auto
    then have "select_best g cur unvisited None \<noteq> None"
      using "1.prems" by (auto simp: select_best_None)
    then obtain bg br where sel: "select_best g cur unvisited None = Some (bg, br)" by auto
    have bgin: "bg \<in> set unvisited" using select_best_Some[OF sel] by simp
    have "\<forall>c\<in>insert bg (set (remove1 bg unvisited)). \<forall>x\<in>set (remove1 bg unvisited).
            success (UniformCostSearch_search g c x)"
      using "1.prems" bgin set_remove1_subset[of bg unvisited] by blast
    from "1.IH"[OF ne sel refl this] show ?thesis
      unfolding multi_goal_loop_step[OF ne sel] .
  qed
qed

lemma ucs_finds_cheapest:
  assumes nn: "nonneg_costs g"
    and s: "map_of (weighted_adjacency g) s \<noteq> None"
    and t: "map_of (weighted_adjacency g) t \<noteq> None"
    and c: "cheapest_route g s hs t"
  shows "success (UniformCostSearch_search g s t) \<and>
         total_cost (UniformCostSearch_search g s t) = hops_cost hs \<and>
         hd (path (UniformCostSearch_search g s t)) = s"
proof -
  let ?r = "UniformCostSearch_search g s t"
  have post: "ucs_post g s t ?r" using nn s t by (rule ucs_search_correct)
  have r: "is_route g s hs t" using c unfolding cheapest_route_def by blast
  have sr: "success ?r" using post r unfolding ucs_post_def by blast
  obtain hs' where hs': "is_route g s hs' t" "path ?r = s # map fst hs'" "total_cost ?r = hops_cost hs'"
    using post sr unfolding ucs_post_def by blast
  have "total_cost ?r \<le> hops_cost hs" using post sr r unfolding ucs_post_def by blast
  moreover have "hops_cost hs \<le> total_cost ?r" using c hs'(1,3) unfolding cheapest_route_def by simp
  ultimately show ?thesis using sr hs'(2) by simp
qed

lemma cheapest_by_ucs:
  assumes nn: "nonneg_costs g"
    and s: "map_of (weighted_adjacency g) s \<noteq> None"
    and t: "map_of (weighted_adjacency g) t \<noteq> None"
    and r: "is_route g s hs t"
    and c: "hops_cost hs = total_cost (UniformCostSearch_search g s t)"
  shows "cheapest_route g s hs t"
proof -
  have post: "ucs_post g s t (UniformCostSearch_search g s t)" using nn s t by (rule ucs_search_correct)
  then have "success (UniformCostSearch_search g s t)" using r unfolding ucs_post_def by blast
  then show ?thesis using post r c unfolding ucs_post_def cheapest_route_def by simp
qed

lemma multi_goal_search_visits:
  assumes "MultiGoalUCS_search g initial goals r"
  shows "set (visit_order r) \<subseteq> set goals \<and> distinct (visit_order r) \<and>
         (all_visited r \<longleftrightarrow> set (visit_order r) = set goals)"
  using assms
proof (cases rule: MultiGoalUCS_search.cases)
  case (1 unvisited_goals)
  from multi_goal_loop_visits[OF 1(2), of g initial "[initial]" 0 "[]"]
  show ?thesis unfolding 1(1) multi_goal_run_def using 1(3) by auto
qed

lemma distinct_set_singleton:
  assumes "set xs = {b}" "distinct xs"
  shows "xs = [b]"
proof (cases xs)
  case Nil
  then show ?thesis using assms by simp
next
  case (Cons x ys)
  have x: "x = b" using assms(1) Cons by auto
  have "set ys \<subseteq> {b}" using assms(1) Cons by auto
  moreover have "b \<notin> set ys" using assms(2) Cons x by simp
  ultimately have "ys = []" by (cases ys) auto
  then show ?thesis using Cons x by simp
qed

lemma two_goals_nearer_first:
  assumes nn: "nonneg_costs g"
    and ks: "map_of (weighted_adjacency g) s \<noteq> None"
    and ka: "map_of (weighted_adjacency g) a \<noteq> None"
    and kb: "map_of (weighted_adjacency g) b \<noteq> None"
    and ab: "a \<noteq> b"
    and ca: "cheapest_route g s ha a" and cb: "cheapest_route g s hb b"
    and cab: "cheapest_route g a hab b"
    and nearer: "hops_cost ha < hops_cost hb"
    and run: "MultiGoalUCS_search g s [a, b] r"
  shows "r = \<lparr>complete_path = path (UniformCostSearch_search g s a)
                               @ drop 1 (path (UniformCostSearch_search g a b)),
              route_cost = hops_cost ha + hops_cost hab,
              visit_order = [a, b], all_visited = True\<rparr>"
proof -
  note ua = ucs_finds_cheapest[OF nn ks ka ca]
  note ub = ucs_finds_cheapest[OF nn ks kb cb]
  note uab = ucs_finds_cheapest[OF nn ka kb cab]
  have first: "select_best g s u None = Some (a, UniformCostSearch_search g s a)"
    if u: "set u = {a, b}" for u
  proof -
    have "select_best g s u None \<noteq> None" using ua u by (auto simp: select_best_None)
    then obtain bg br where sel: "select_best g s u None = Some (bg, br)" by auto
    note p = select_best_Some[OF sel]
    have "bg = a \<or> bg = b" using p u by auto
    moreover have "bg \<noteq> b"
    proof
      assume "bg = b"
      then have "total_cost (UniformCostSearch_search g s b) \<le> total_cost (UniformCostSearch_search g s a)"
        using p ua u by auto
      then show False using ua ub nearer by simp
    qed
    ultimately show ?thesis using sel p by simp
  qed
  have second: "select_best g a [b] None = Some (b, UniformCostSearch_search g a b)"
    using uab by (simp add: Let_def)
  have pa: "[s] @ drop 1 (path (UniformCostSearch_search g s a)) = path (UniformCostSearch_search g s a)"
  proof -
    have "path (UniformCostSearch_search g s a) \<noteq> []"
    proof -
      have "ucs_post g s a (UniformCostSearch_search g s a)" using nn ks ka by (rule ucs_search_correct)
      then show ?thesis using ua unfolding ucs_post_def by auto
    qed
    then show ?thesis using ua by (cases "path (UniformCostSearch_search g s a)") auto
  qed
  from run show ?thesis
  proof (cases rule: MultiGoalUCS_search.cases)
    case (1 u)
    have su: "set u = {a, b}" using 1(3) by simp
    have ne: "u \<noteq> []" using su by auto
    have rem: "remove1 a u = [b]"
    proof -
      have "set (remove1 a u) = {b}" using set_remove1_eq[OF 1(2), of a] su ab by auto
      moreover have "distinct (remove1 a u)" using 1(2) by simp
      ultimately show ?thesis by (rule distinct_set_singleton)
    qed
    show ?thesis
      unfolding 1(1) multi_goal_run_def
        multi_goal_loop_step[OF ne first[OF su]] rem
        multi_goal_loop_step[OF _ second, simplified]
      using ua uab pa by (simp add: multi_goal_loop_done)
  qed
qed

text \<open>
  C5. \<^verbatim>\<open>MultiGoalUCS.search\<close> returns: for every graph, start and goals there is a result,
  and every iteration order of the set of goals gives one; each result is the run of
  the loop from the initial node with route \<open>[initial]\<close> and cost 0 over the distinct
  goals in some order. One round of that loop, in any state: when UCS reaches none of
  the unvisited goals from the current location, the search returns the route, cost and
  visit order accumulated so far with \<open>success = False\<close>; otherwise it commits to an
  unvisited goal whose UCS cost from the current location is least among the reached
  ones, appends that UCS path without its first node, adds its cost, appends the goal to
  the visit order, removes it from the set and continues from it. With no goal left it
  returns \<open>success = True\<close>. A result never visits a goal twice or a node that is no
  goal, and it has \<open>success = True\<close> exactly when it has visited every goal; this is so
  whenever UCS reaches every goal from the start and from every goal. With non-negative
  costs and two distinct goals \<open>a\<close>, \<open>b\<close> such that the cheapest route from the start
  \<open>s\<close> to \<open>a\<close> costs less than the cheapest to \<open>b\<close>, the search returns, and only
  returns, the result that visits \<open>a\<close> then \<open>b\<close> at the cheapest cost from \<open>s\<close> to \<open>a\<close>
  plus the cheapest from \<open>a\<close> to \<open>b\<close>. (In the record, \<open>route_cost\<close> is the key
  \<^verbatim>\<open>total_cost\<close> and \<open>all_visited\<close> the key \<^verbatim>\<open>success\<close>.)
\<close>

theorem multi_goal_greedy:
  "(\<exists>r. MultiGoalUCS_search g initial goals r) \<and>
   (\<forall>u. distinct u \<and> set u = set goals \<longrightarrow>
      MultiGoalUCS_search g initial goals (multi_goal_loop g u initial [initial] 0 [])) \<and>
   (unvisited \<noteq> [] \<and> (\<forall>x\<in>set unvisited. \<not> success (UniformCostSearch_search g cur x)) \<longrightarrow>
      multi_goal_loop g unvisited cur cp cost order
        = \<lparr>complete_path = cp, route_cost = cost, visit_order = order, all_visited = False\<rparr>) \<and>
   (unvisited \<noteq> [] \<and> (\<exists>x\<in>set unvisited. success (UniformCostSearch_search g cur x)) \<longrightarrow>
      (\<exists>best. best \<in> set unvisited \<and> success (UniformCostSearch_search g cur best) \<and>
          (\<forall>x\<in>set unvisited. success (UniformCostSearch_search g cur x) \<longrightarrow>
              total_cost (UniformCostSearch_search g cur best)
                \<le> total_cost (UniformCostSearch_search g cur x)) \<and>
          multi_goal_loop g unvisited cur cp cost order
            = multi_goal_loop g (remove1 best unvisited) best
                (cp @ drop 1 (path (UniformCostSearch_search g cur best)))
                (cost + total_cost (UniformCostSearch_search g cur best))
                (order @ [best]))) \<and>
   multi_goal_loop g [] cur cp cost order
     = \<lparr>complete_path = cp, route_cost = cost, visit_order = order, all_visited = True\<rparr> \<and>
   (MultiGoalUCS_search g initial goals r \<longrightarrow>
      (\<exists>unvisited_goals. distinct unvisited_goals \<and> set unvisited_goals = set goals \<and>
          r = multi_goal_loop g unvisited_goals initial [initial] 0 []) \<and>
      set (visit_order r) \<subseteq> set goals \<and> distinct (visit_order r) \<and>
      (all_visited r \<longleftrightarrow> set (visit_order r) = set goals)) \<and>
   ((\<forall>c\<in>insert initial (set goals). \<forall>x\<in>set goals.
        success (UniformCostSearch_search g c x)) \<and>
    MultiGoalUCS_search g initial goals r \<longrightarrow> all_visited r) \<and>
   (nonneg_costs g \<and> map_of (weighted_adjacency g) s \<noteq> None \<and>
    map_of (weighted_adjacency g) a \<noteq> None \<and> map_of (weighted_adjacency g) b \<noteq> None \<and>
    a \<noteq> b \<and> cheapest_route g s ha a \<and> cheapest_route g s hb b \<and> cheapest_route g a hab b \<and>
    hops_cost ha < hops_cost hb \<longrightarrow>
      MultiGoalUCS_search g s [a, b]
        \<lparr>complete_path = path (UniformCostSearch_search g s a)
                           @ drop 1 (path (UniformCostSearch_search g a b)),
         route_cost = hops_cost ha + hops_cost hab,
         visit_order = [a, b], all_visited = True\<rparr> \<and>
      (\<forall>r'. MultiGoalUCS_search g s [a, b] r' \<longrightarrow>
         r' = \<lparr>complete_path = path (UniformCostSearch_search g s a)
                                  @ drop 1 (path (UniformCostSearch_search g a b)),
                route_cost = hops_cost ha + hops_cost hab,
                visit_order = [a, b], all_visited = True\<rparr>))"
proof -
  have every: "MultiGoalUCS_search g' i' gs' (multi_goal_loop g' u i' [i'] 0 [])"
    if "distinct u" "set u = set gs'" for g' :: "'a WeightedGraph_scheme" and i' gs' u
    using MultiGoalUCS_search.intros[OF that, of g' i'] by (simp add: multi_goal_run_def)
  have ex: "\<exists>r. MultiGoalUCS_search g initial goals r"
    using every[OF distinct_remdups set_remdups, of g initial goals] by blast
  have each: "\<forall>u. distinct u \<and> set u = set goals \<longrightarrow>
      MultiGoalUCS_search g initial goals (multi_goal_loop g u initial [initial] 0 [])"
    using every by blast
  have 1: "unvisited \<noteq> [] \<and> (\<forall>x\<in>set unvisited. \<not> success (UniformCostSearch_search g cur x)) \<longrightarrow>
      multi_goal_loop g unvisited cur cp cost order
        = \<lparr>complete_path = cp, route_cost = cost, visit_order = order, all_visited = False\<rparr>"
    by (simp add: multi_goal_loop_fail select_best_None)
  have 2: "unvisited \<noteq> [] \<and> (\<exists>x\<in>set unvisited. success (UniformCostSearch_search g cur x)) \<longrightarrow>
      (\<exists>best. best \<in> set unvisited \<and> success (UniformCostSearch_search g cur best) \<and>
          (\<forall>x\<in>set unvisited. success (UniformCostSearch_search g cur x) \<longrightarrow>
              total_cost (UniformCostSearch_search g cur best)
                \<le> total_cost (UniformCostSearch_search g cur x)) \<and>
          multi_goal_loop g unvisited cur cp cost order
            = multi_goal_loop g (remove1 best unvisited) best
                (cp @ drop 1 (path (UniformCostSearch_search g cur best)))
                (cost + total_cost (UniformCostSearch_search g cur best))
                (order @ [best]))"
  proof
    assume h: "unvisited \<noteq> [] \<and> (\<exists>x\<in>set unvisited. success (UniformCostSearch_search g cur x))"
    then have "select_best g cur unvisited None \<noteq> None" by (simp add: select_best_None)
    then obtain bg br where sel: "select_best g cur unvisited None = Some (bg, br)" by auto
    note p = select_best_Some[OF sel]
    have br: "br = UniformCostSearch_search g cur bg" using p by simp
    have "multi_goal_loop g unvisited cur cp cost order
            = multi_goal_loop g (remove1 bg unvisited) bg
                (cp @ drop 1 (path (UniformCostSearch_search g cur bg)))
                (cost + total_cost (UniformCostSearch_search g cur bg))
                (order @ [bg])"
      using multi_goal_loop_step[OF _ sel] h unfolding br by simp
    then show "\<exists>best. best \<in> set unvisited \<and> success (UniformCostSearch_search g cur best) \<and>
          (\<forall>x\<in>set unvisited. success (UniformCostSearch_search g cur x) \<longrightarrow>
              total_cost (UniformCostSearch_search g cur best)
                \<le> total_cost (UniformCostSearch_search g cur x)) \<and>
          multi_goal_loop g unvisited cur cp cost order
            = multi_goal_loop g (remove1 best unvisited) best
                (cp @ drop 1 (path (UniformCostSearch_search g cur best)))
                (cost + total_cost (UniformCostSearch_search g cur best))
                (order @ [best])"
      using p unfolding br by blast
  qed
  have 3: "MultiGoalUCS_search g initial goals r \<longrightarrow>
      (\<exists>unvisited_goals. distinct unvisited_goals \<and> set unvisited_goals = set goals \<and>
          r = multi_goal_loop g unvisited_goals initial [initial] 0 []) \<and>
      set (visit_order r) \<subseteq> set goals \<and> distinct (visit_order r) \<and>
      (all_visited r \<longleftrightarrow> set (visit_order r) = set goals)"
  proof
    assume m: "MultiGoalUCS_search g initial goals r"
    then have "\<exists>unvisited_goals. distinct unvisited_goals \<and> set unvisited_goals = set goals \<and>
          r = multi_goal_loop g unvisited_goals initial [initial] 0 []"
      by (cases rule: MultiGoalUCS_search.cases) (auto simp: multi_goal_run_def)
    then show "(\<exists>unvisited_goals. distinct unvisited_goals \<and> set unvisited_goals = set goals \<and>
          r = multi_goal_loop g unvisited_goals initial [initial] 0 []) \<and>
      set (visit_order r) \<subseteq> set goals \<and> distinct (visit_order r) \<and>
      (all_visited r \<longleftrightarrow> set (visit_order r) = set goals)"
      using multi_goal_search_visits[OF m] by blast
  qed
  have 4: "(\<forall>c\<in>insert initial (set goals). \<forall>x\<in>set goals.
        success (UniformCostSearch_search g c x)) \<and>
    MultiGoalUCS_search g initial goals r \<longrightarrow> all_visited r"
  proof
    assume h: "(\<forall>c\<in>insert initial (set goals). \<forall>x\<in>set goals.
        success (UniformCostSearch_search g c x)) \<and> MultiGoalUCS_search g initial goals r"
    then obtain u where u: "set u = set goals" "r = multi_goal_loop g u initial [initial] 0 []"
      using 3 by blast
    show "all_visited r"
      unfolding u(2) using h u(1) by (intro multi_goal_loop_all_reached) simp
  qed
  let ?R = "\<lparr>complete_path = path (UniformCostSearch_search g s a)
                           @ drop 1 (path (UniformCostSearch_search g a b)),
         route_cost = hops_cost ha + hops_cost hab,
         visit_order = [a, b], all_visited = True\<rparr>"
  have 5: "nonneg_costs g \<and> map_of (weighted_adjacency g) s \<noteq> None \<and>
    map_of (weighted_adjacency g) a \<noteq> None \<and> map_of (weighted_adjacency g) b \<noteq> None \<and>
    a \<noteq> b \<and> cheapest_route g s ha a \<and> cheapest_route g s hb b \<and> cheapest_route g a hab b \<and>
    hops_cost ha < hops_cost hb \<longrightarrow>
      MultiGoalUCS_search g s [a, b] ?R \<and> (\<forall>r'. MultiGoalUCS_search g s [a, b] r' \<longrightarrow> r' = ?R)"
  proof
    assume h: "nonneg_costs g \<and> map_of (weighted_adjacency g) s \<noteq> None \<and>
      map_of (weighted_adjacency g) a \<noteq> None \<and> map_of (weighted_adjacency g) b \<noteq> None \<and>
      a \<noteq> b \<and> cheapest_route g s ha a \<and> cheapest_route g s hb b \<and> cheapest_route g a hab b \<and>
      hops_cost ha < hops_cost hb"
    have only: "r' = ?R" if "MultiGoalUCS_search g s [a, b] r'" for r'
      using two_goals_nearer_first[of g s a b ha hb hab r'] h that by blast
    obtain r0 where r0: "MultiGoalUCS_search g s [a, b] r0"
      using every[OF distinct_remdups set_remdups, of g s "[a, b]"] by blast
    have "MultiGoalUCS_search g s [a, b] ?R" using r0 only[OF r0] by simp
    then show "MultiGoalUCS_search g s [a, b] ?R \<and>
               (\<forall>r'. MultiGoalUCS_search g s [a, b] r' \<longrightarrow> r' = ?R)"
      using only by blast
  qed
  show ?thesis
    using ex each 1 2 3 4 5 multi_goal_loop_done[of g cur cp cost order]
    by blast
qed

theorem multi_goal_greedy_witness:
  "MultiGoalUCS_search g2 ''A'' [''B'', ''C'']
     \<lparr>complete_path = [''A'', ''B'', ''C''], route_cost = 5,
      visit_order = [''B'', ''C''], all_visited = True\<rparr> \<and>
   multi_goal_run g2 ''A'' [''C'', ''B'']
     = \<lparr>complete_path = [''A'', ''B'', ''C''], route_cost = 5,
        visit_order = [''B'', ''C''], all_visited = True\<rparr>"
proof -
  have nn: "nonneg_costs g2" by code_simp
  have ka: "map_of (weighted_adjacency g2) ''A'' \<noteq> None" by code_simp
  have kb: "map_of (weighted_adjacency g2) ''B'' \<noteq> None" by code_simp
  have kc: "map_of (weighted_adjacency g2) ''C'' \<noteq> None" by code_simp
  have uab: "UniformCostSearch_search g2 ''A'' ''B''
               = \<lparr>path = [''A'', ''B''], success = True, total_cost = 3\<rparr>" by code_simp
  have uac: "UniformCostSearch_search g2 ''A'' ''C''
               = \<lparr>path = [''A'', ''B'', ''C''], success = True, total_cost = 5\<rparr>" by code_simp
  have ubc: "UniformCostSearch_search g2 ''B'' ''C''
               = \<lparr>path = [''B'', ''C''], success = True, total_cost = 2\<rparr>" by code_simp
  have rab: "is_route g2 ''A'' [(''B'', 3)] ''B''" by code_simp
  have rac: "is_route g2 ''A'' [(''B'', 3), (''C'', 2)] ''C''" by code_simp
  have rbc: "is_route g2 ''B'' [(''C'', 2)] ''C''" by code_simp
  have cab: "cheapest_route g2 ''A'' [(''B'', 3)] ''B''"
    using nn ka kb rab by (rule cheapest_by_ucs) (simp add: uab hops_cost_def)
  have cac: "cheapest_route g2 ''A'' [(''B'', 3), (''C'', 2)] ''C''"
    using nn ka kc rac by (rule cheapest_by_ucs) (simp add: uac hops_cost_def)
  have cbc: "cheapest_route g2 ''B'' [(''C'', 2)] ''C''"
    using nn kb kc rbc by (rule cheapest_by_ucs) (simp add: ubc hops_cost_def)
  have run: "MultiGoalUCS_search g2 ''A'' [''B'', ''C''] (multi_goal_run g2 ''A'' [''C'', ''B''])"
    by (rule MultiGoalUCS_search.intros) auto
  let ?R = "\<lparr>complete_path = path (UniformCostSearch_search g2 ''A'' ''B'')
                               @ drop 1 (path (UniformCostSearch_search g2 ''B'' ''C'')),
           route_cost = hops_cost [(''B'', 3)] + hops_cost [(''C'', 2)],
           visit_order = [''B'', ''C''], all_visited = True\<rparr>"
  have "MultiGoalUCS_search g2 ''A'' [''B'', ''C''] ?R \<and>
        (\<forall>r'. MultiGoalUCS_search g2 ''A'' [''B'', ''C''] r' \<longrightarrow> r' = ?R)"
    using multi_goal_greedy[where g = g2 and s = "''A''" and a = "''B''" and b = "''C''"
            and ha = "[(''B'', 3)]" and hb = "[(''B'', 3), (''C'', 2)]" and hab = "[(''C'', 2)]"]
      nn ka kb kc cab cac cbc
    by (simp add: hops_cost_def)
  then have "MultiGoalUCS_search g2 ''A'' [''B'', ''C''] ?R \<and>
             multi_goal_run g2 ''A'' [''C'', ''B''] = ?R"
    using run by blast
  then show ?thesis by (simp add: uab ubc hops_cost_def)
qed

section \<open>Determinism\<close>


















section \<open>Properties of minimax\<close>

subsection \<open>The fold over the children\<close>

lemma max_fold_aux:
  assumes "\<forall>c\<in>set cs. f c = (Num (v c), p c)"
  shows "foldl (\<lambda>best child. let r = f child in if num_less (fst best) (fst r) then r else best)
           (Num b, bp) cs =
         (Num (Max (insert b (set (map v cs)))),
          case map p (filter (\<lambda>c. b < v c \<and> v c = Max (insert b (set (map v cs)))) cs) of
            [] \<Rightarrow> bp | q # qs \<Rightarrow> q)"
  using assms
proof (induction cs arbitrary: b bp)
  case Nil
  then show ?case by simp
next
  case (Cons c cs)
  define M where "M = Max (insert b (set (map v (c # cs))))"
  have fc: "f c = (Num (v c), p c)" using Cons.prems by simp
  have rest: "\<forall>c\<in>set cs. f c = (Num (v c), p c)" using Cons.prems by simp
  have geM: "\<And>x. x \<in> insert b (set (map v (c # cs))) \<Longrightarrow> x \<le> M"
    unfolding M_def by (rule Max_ge) auto
  show ?case
  proof (cases "b < v c")
    case True
    define M1 where "M1 = Max (insert (v c) (set (map v cs)))"
    have ge1: "\<And>x. x \<in> insert (v c) (set (map v cs)) \<Longrightarrow> x \<le> M1"
      unfolding M1_def by (rule Max_ge) auto
    have in1: "M1 \<in> insert (v c) (set (map v cs))"
      unfolding M1_def by (rule Max_in) auto
    have inM: "M \<in> insert b (set (map v (c # cs)))"
      unfolding M_def by (rule Max_in) auto
    have "M1 \<le> M" using in1 geM by auto
    moreover have "M \<le> M1"
    proof -
      have "v c \<le> M1" using ge1 by simp
      then have "b \<le> M1" using True by simp
      then show ?thesis using inM ge1 by auto
    qed
    ultimately have MM: "M = M1" by simp
    have IH: "foldl (\<lambda>best child. let r = f child in if num_less (fst best) (fst r) then r else best)
           (Num (v c), p c) cs =
         (Num M1, case map p (filter (\<lambda>x. v c < v x \<and> v x = M1) cs) of
            [] \<Rightarrow> p c | q # qs \<Rightarrow> q)"
      using Cons.IH[OF rest, of "v c" "p c"] unfolding M1_def .
    have step: "foldl (\<lambda>best child. let r = f child in if num_less (fst best) (fst r) then r else best)
           (Num b, bp) (c # cs) = foldl (\<lambda>best child. let r = f child in if num_less (fst best) (fst r) then r else best)
           (Num (v c), p c) cs"
      using True fc by (simp add: Let_def)
    have paths: "(case map p (filter (\<lambda>x. v c < v x \<and> v x = M1) cs) of [] \<Rightarrow> p c | q # qs \<Rightarrow> q)
       = (case map p (filter (\<lambda>x. b < v x \<and> v x = M1) (c # cs)) of [] \<Rightarrow> bp | q # qs \<Rightarrow> q)"
    proof (cases "v c = M1")
      case eq: True
      have "\<And>x. x \<in> set cs \<Longrightarrow> \<not> v c < v x"
      proof -
        fix x assume "x \<in> set cs"
        then have "v x \<le> M1" using ge1 by simp
        then show "\<not> v c < v x" using eq by simp
      qed
      then have "filter (\<lambda>x. v c < v x \<and> v x = M1) cs = []"
        by (auto simp: filter_empty_conv)
      then show ?thesis using eq True by simp
    next
      case neq: False
      have "v c \<le> M1" using ge1 by simp
      then have lt: "v c < M1" using neq by simp
      have "filter (\<lambda>x. v c < v x \<and> v x = M1) cs = filter (\<lambda>x. b < v x \<and> v x = M1) cs"
        using lt True by (intro filter_cong) auto
      moreover have "filter (\<lambda>x. b < v x \<and> v x = M1) cs \<noteq> []"
      proof -
        obtain x where "x \<in> set cs" "v x = M1" using in1 neq by auto
        moreover from this have "b < v x" using lt True by simp
        ultimately have "\<exists>x\<in>set cs. b < v x \<and> v x = M1" by blast
        then show ?thesis by (simp add: filter_empty_conv)
      qed
      ultimately show ?thesis using neq by (simp split: list.splits)
    qed
    show ?thesis
      unfolding step IH paths M_def[symmetric] MM by simp
  next
    case False
    then have le: "v c \<le> b" by simp
    define M0 where "M0 = Max (insert b (set (map v cs)))"
    have ge0: "\<And>x. x \<in> insert b (set (map v cs)) \<Longrightarrow> x \<le> M0"
      unfolding M0_def by (rule Max_ge) auto
    have in0: "M0 \<in> insert b (set (map v cs))"
      unfolding M0_def by (rule Max_in) auto
    have inM: "M \<in> insert b (set (map v (c # cs)))"
      unfolding M_def by (rule Max_in) auto
    have "M0 \<le> M" using in0 geM by auto
    moreover have "M \<le> M0"
    proof -
      have "b \<le> M0" using ge0 by simp
      then have "v c \<le> M0" using le by simp
      then show ?thesis using inM ge0 by auto
    qed
    ultimately have MM: "M = M0" by simp
    have IH: "foldl (\<lambda>best child. let r = f child in if num_less (fst best) (fst r) then r else best)
           (Num b, bp) cs =
         (Num M0, case map p (filter (\<lambda>x. b < v x \<and> v x = M0) cs) of
            [] \<Rightarrow> bp | q # qs \<Rightarrow> q)"
      using Cons.IH[OF rest, of b bp] unfolding M0_def .
    have step: "foldl (\<lambda>best child. let r = f child in if num_less (fst best) (fst r) then r else best)
           (Num b, bp) (c # cs) = foldl (\<lambda>best child. let r = f child in if num_less (fst best) (fst r) then r else best)
           (Num b, bp) cs"
      using False fc by (simp add: Let_def)
    have paths: "filter (\<lambda>x. b < v x \<and> v x = M0) (c # cs) = filter (\<lambda>x. b < v x \<and> v x = M0) cs"
      using False by simp
    show ?thesis
      unfolding step IH M_def[symmetric] MM paths by simp
  qed
qed

lemma min_fold_aux:
  assumes "\<forall>c\<in>set cs. f c = (Num (v c), p c)"
  shows "foldl (\<lambda>best child. let r = f child in if num_less (fst r) (fst best) then r else best)
           (Num b, bp) cs =
         (Num (Min (insert b (set (map v cs)))),
          case map p (filter (\<lambda>c. v c < b \<and> v c = Min (insert b (set (map v cs)))) cs) of
            [] \<Rightarrow> bp | q # qs \<Rightarrow> q)"
  using assms
proof (induction cs arbitrary: b bp)
  case Nil
  then show ?case by simp
next
  case (Cons c cs)
  define M where "M = Min (insert b (set (map v (c # cs))))"
  have fc: "f c = (Num (v c), p c)" using Cons.prems by simp
  have rest: "\<forall>c\<in>set cs. f c = (Num (v c), p c)" using Cons.prems by simp
  have leM: "\<And>x. x \<in> insert b (set (map v (c # cs))) \<Longrightarrow> M \<le> x"
    unfolding M_def by (rule Min_le) auto
  have inM: "M \<in> insert b (set (map v (c # cs)))"
    unfolding M_def by (rule Min_in) auto
  show ?case
  proof (cases "v c < b")
    case True
    define M1 where "M1 = Min (insert (v c) (set (map v cs)))"
    have le1: "\<And>x. x \<in> insert (v c) (set (map v cs)) \<Longrightarrow> M1 \<le> x"
      unfolding M1_def by (rule Min_le) auto
    have in1: "M1 \<in> insert (v c) (set (map v cs))"
      unfolding M1_def by (rule Min_in) auto
    have "M \<le> M1" using in1 leM by auto
    moreover have "M1 \<le> M"
    proof -
      have "M1 \<le> v c" using le1 by simp
      then have "M1 \<le> b" using True by simp
      then show ?thesis using inM le1 by auto
    qed
    ultimately have MM: "M = M1" by simp
    have IH: "foldl (\<lambda>best child. let r = f child in if num_less (fst r) (fst best) then r else best)
           (Num (v c), p c) cs =
         (Num M1, case map p (filter (\<lambda>x. v x < v c \<and> v x = M1) cs) of
            [] \<Rightarrow> p c | q # qs \<Rightarrow> q)"
      using Cons.IH[OF rest, of "v c" "p c"] unfolding M1_def .
    have step: "foldl (\<lambda>best child. let r = f child in if num_less (fst r) (fst best) then r else best)
           (Num b, bp) (c # cs) = foldl (\<lambda>best child. let r = f child in if num_less (fst r) (fst best) then r else best)
           (Num (v c), p c) cs"
      using True fc by (simp add: Let_def)
    have paths: "(case map p (filter (\<lambda>x. v x < v c \<and> v x = M1) cs) of [] \<Rightarrow> p c | q # qs \<Rightarrow> q)
       = (case map p (filter (\<lambda>x. v x < b \<and> v x = M1) (c # cs)) of [] \<Rightarrow> bp | q # qs \<Rightarrow> q)"
    proof (cases "v c = M1")
      case eq: True
      have "\<And>x. x \<in> set cs \<Longrightarrow> \<not> v x < v c"
      proof -
        fix x assume "x \<in> set cs"
        then have "M1 \<le> v x" using le1 by simp
        then show "\<not> v x < v c" using eq by simp
      qed
      then have "filter (\<lambda>x. v x < v c \<and> v x = M1) cs = []"
        by (auto simp: filter_empty_conv)
      then show ?thesis using eq True by simp
    next
      case neq: False
      have "M1 \<le> v c" using le1 by simp
      then have lt: "M1 < v c" using neq by simp
      have "filter (\<lambda>x. v x < v c \<and> v x = M1) cs = filter (\<lambda>x. v x < b \<and> v x = M1) cs"
        using lt True by (intro filter_cong) auto
      moreover have "filter (\<lambda>x. v x < b \<and> v x = M1) cs \<noteq> []"
      proof -
        obtain x where "x \<in> set cs" "v x = M1" using in1 neq by auto
        moreover from this have "v x < b" using lt True by simp
        ultimately have "\<exists>x\<in>set cs. v x < b \<and> v x = M1" by blast
        then show ?thesis by (simp add: filter_empty_conv)
      qed
      ultimately show ?thesis using neq by (simp split: list.splits)
    qed
    show ?thesis
      unfolding step IH paths M_def[symmetric] MM by simp
  next
    case False
    then have le: "b \<le> v c" by simp
    define M0 where "M0 = Min (insert b (set (map v cs)))"
    have le0: "\<And>x. x \<in> insert b (set (map v cs)) \<Longrightarrow> M0 \<le> x"
      unfolding M0_def by (rule Min_le) auto
    have in0: "M0 \<in> insert b (set (map v cs))"
      unfolding M0_def by (rule Min_in) auto
    have "M \<le> M0" using in0 leM by auto
    moreover have "M0 \<le> M"
    proof -
      have "M0 \<le> b" using le0 by simp
      then have "M0 \<le> v c" using le by simp
      then show ?thesis using inM le0 by auto
    qed
    ultimately have MM: "M = M0" by simp
    have IH: "foldl (\<lambda>best child. let r = f child in if num_less (fst r) (fst best) then r else best)
           (Num b, bp) cs =
         (Num M0, case map p (filter (\<lambda>x. v x < b \<and> v x = M0) cs) of
            [] \<Rightarrow> bp | q # qs \<Rightarrow> q)"
      using Cons.IH[OF rest, of b bp] unfolding M0_def .
    have step: "foldl (\<lambda>best child. let r = f child in if num_less (fst r) (fst best) then r else best)
           (Num b, bp) (c # cs) = foldl (\<lambda>best child. let r = f child in if num_less (fst r) (fst best) then r else best)
           (Num b, bp) cs"
      using False fc by (simp add: Let_def)
    have paths: "filter (\<lambda>x. v x < b \<and> v x = M0) (c # cs) = filter (\<lambda>x. v x < b \<and> v x = M0) cs"
      using False by simp
    show ?thesis
      unfolding step IH M_def[symmetric] MM paths by simp
  qed
qed

lemma first_path_prefix:
  "xs \<noteq> [] \<Longrightarrow>
   (case map (\<lambda>x. cp @ q x) xs of [] \<Rightarrow> d | p # ps \<Rightarrow> p) =
   cp @ (case map q xs of [] \<Rightarrow> [] | p # ps \<Rightarrow> p)"
  by (cases xs) auto

lemma max_fold:
  assumes ne: "cs \<noteq> []" and f: "\<forall>c\<in>set cs. f c = (Num (v c), cp @ q c)"
  shows "foldl (\<lambda>best child. let r = f child in if num_less (fst best) (fst r) then r else best)
           (NegInf, cp0) cs =
         (Num (Max (set (map v cs))),
          cp @ (case map q (filter (\<lambda>c. v c = Max (set (map v cs))) cs) of
                  [] \<Rightarrow> [] | p # ps \<Rightarrow> p))"
proof -
  obtain c cs' where cs: "cs = c # cs'" using ne by (cases cs) auto
  define M where "M = Max (set (map v cs))"
  have M': "Max (insert (v c) (set (map v cs'))) = M" unfolding M_def cs by simp
  have fc: "f c = (Num (v c), cp @ q c)" using f cs by simp
  have rest: "\<forall>x\<in>set cs'. f x = (Num (v x), cp @ q x)" using f cs by simp
  have geM: "\<And>x. x \<in> set (map v cs) \<Longrightarrow> x \<le> M"
    unfolding M_def by (rule Max_ge) auto
  have inM: "M \<in> set (map v cs)"
    unfolding M_def using ne by (intro Max_in) auto
  have step: "foldl (\<lambda>best child. let r = f child in if num_less (fst best) (fst r) then r else best)
           (NegInf, cp0) cs = foldl (\<lambda>best child. let r = f child in if num_less (fst best) (fst r) then r else best)
           (Num (v c), cp @ q c) cs'"
    unfolding cs using fc by (simp add: Let_def)
  have aux: "foldl (\<lambda>best child. let r = f child in if num_less (fst best) (fst r) then r else best)
           (Num (v c), cp @ q c) cs' =
      (Num M, case map (\<lambda>x. cp @ q x) (filter (\<lambda>x. v c < v x \<and> v x = M) cs') of
            [] \<Rightarrow> cp @ q c | p # ps \<Rightarrow> p)"
    using max_fold_aux[OF rest, of "v c" "cp @ q c"] unfolding M' .
  have paths: "(case map (\<lambda>x. cp @ q x) (filter (\<lambda>x. v c < v x \<and> v x = M) cs') of
            [] \<Rightarrow> cp @ q c | p # ps \<Rightarrow> p) =
       cp @ (case map q (filter (\<lambda>x. v x = M) cs) of [] \<Rightarrow> [] | p # ps \<Rightarrow> p)"
  proof (cases "v c = M")
    case True
    have "filter (\<lambda>x. v c < v x \<and> v x = M) cs' = []"
      using True by (auto simp: filter_empty_conv)
    then show ?thesis using True cs by simp
  next
    case False
    have "v c \<le> M" using geM cs by simp
    then have lt: "v c < M" using False by simp
    have eq: "filter (\<lambda>x. v c < v x \<and> v x = M) cs' = filter (\<lambda>x. v x = M) cs'"
      using lt by (intro filter_cong) auto
    obtain x where "x \<in> set cs'" "v x = M" using inM False cs by auto
    then have "filter (\<lambda>x. v x = M) cs' \<noteq> []" by (auto simp: filter_empty_conv)
    then show ?thesis using False cs eq by (simp add: first_path_prefix)
  qed
  show ?thesis using step aux paths unfolding M_def by simp
qed

lemma min_fold:
  assumes ne: "cs \<noteq> []" and f: "\<forall>c\<in>set cs. f c = (Num (v c), cp @ q c)"
  shows "foldl (\<lambda>best child. let r = f child in if num_less (fst r) (fst best) then r else best)
           (PosInf, cp0) cs =
         (Num (Min (set (map v cs))),
          cp @ (case map q (filter (\<lambda>c. v c = Min (set (map v cs))) cs) of
                  [] \<Rightarrow> [] | p # ps \<Rightarrow> p))"
proof -
  obtain c cs' where cs: "cs = c # cs'" using ne by (cases cs) auto
  define M where "M = Min (set (map v cs))"
  have M': "Min (insert (v c) (set (map v cs'))) = M" unfolding M_def cs by simp
  have fc: "f c = (Num (v c), cp @ q c)" using f cs by simp
  have rest: "\<forall>x\<in>set cs'. f x = (Num (v x), cp @ q x)" using f cs by simp
  have leM: "\<And>x. x \<in> set (map v cs) \<Longrightarrow> M \<le> x"
    unfolding M_def by (rule Min_le) auto
  have inM: "M \<in> set (map v cs)"
    unfolding M_def using ne by (intro Min_in) auto
  have step: "foldl (\<lambda>best child. let r = f child in if num_less (fst r) (fst best) then r else best)
           (PosInf, cp0) cs = foldl (\<lambda>best child. let r = f child in if num_less (fst r) (fst best) then r else best)
           (Num (v c), cp @ q c) cs'"
    unfolding cs using fc by (simp add: Let_def)
  have aux: "foldl (\<lambda>best child. let r = f child in if num_less (fst r) (fst best) then r else best)
           (Num (v c), cp @ q c) cs' =
      (Num M, case map (\<lambda>x. cp @ q x) (filter (\<lambda>x. v x < v c \<and> v x = M) cs') of
            [] \<Rightarrow> cp @ q c | p # ps \<Rightarrow> p)"
    using min_fold_aux[OF rest, of "v c" "cp @ q c"] unfolding M' .
  have paths: "(case map (\<lambda>x. cp @ q x) (filter (\<lambda>x. v x < v c \<and> v x = M) cs') of
            [] \<Rightarrow> cp @ q c | p # ps \<Rightarrow> p) =
       cp @ (case map q (filter (\<lambda>x. v x = M) cs) of [] \<Rightarrow> [] | p # ps \<Rightarrow> p)"
  proof (cases "v c = M")
    case True
    have "filter (\<lambda>x. v x < v c \<and> v x = M) cs' = []"
      using True by (auto simp: filter_empty_conv)
    then show ?thesis using True cs by simp
  next
    case False
    have "M \<le> v c" using leM cs by simp
    then have lt: "M < v c" using False by simp
    have eq: "filter (\<lambda>x. v x < v c \<and> v x = M) cs' = filter (\<lambda>x. v x = M) cs'"
      using lt by (intro filter_cong) auto
    obtain x where "x \<in> set cs'" "v x = M" using inM False cs by auto
    then have "filter (\<lambda>x. v x = M) cs' \<noteq> []" by (auto simp: filter_empty_conv)
    then show ?thesis using False cs eq by (simp add: first_path_prefix)
  qed
  show ?thesis using step aux paths unfolding M_def by simp
qed

lemma minimax_backward_induction_aux:
  "leaves_have_utility node \<Longrightarrow>
   minimax node pre = (Num (backward_induction node), pre @ optimal_path node)"
proof (induction node arbitrary: pre)
  case (GameNode nm pl cs ut)
  show ?case
  proof (cases ut)
    case (Some u)
    then show ?thesis by (simp add: minimax.simps)
  next
    case None
    have ne: "cs \<noteq> []" using GameNode.prems None by simp
    have kids: "\<forall>c\<in>set cs. minimax c (pre @ [nm]) =
                 (Num (backward_induction c), (pre @ [nm]) @ optimal_path c)"
      using GameNode.IH GameNode.prems by (simp add: list_all_iff)
    show ?thesis
    proof (cases "pl = MAX_player")
      case True
      show ?thesis
        using max_fold[OF ne kids, of "pre @ [nm]"] None True
        by (simp add: minimax.simps)
    next
      case False
      show ?thesis
        using min_fold[OF ne kids, of "pre @ [nm]"] None False
        by (simp add: minimax.simps)
    qed
  qed
qed

text \<open>
  C4. On a tree in which every childless node carries a utility, \<^verbatim>\<open>MiniMax.search\<close>
  returns the backward-induction value of the root, and the path that follows at every
  non-terminal node the first child (in declared order) whose value is the node's value.
  A MAX root over two terminal children with utilities 3 and 7 yields 7 and the path
  through the child with 7, in either order of the children; of two terminal children
  with the same utility the first is taken, at a MAX and at a MIN root.
\<close>

theorem minimax_backward_induction:
  "(leaves_have_utility root \<longrightarrow>
      MiniMax_search root =
        \<lparr>best_value = Num (backward_induction root), best_path = optimal_path root\<rparr>) \<and>
   MiniMax_search (GameNode r MAX_player [GameNode a pa as (Some 3), GameNode b pb bs (Some 7)] None)
     = \<lparr>best_value = Num 7, best_path = [r, b]\<rparr> \<and>
   MiniMax_search (GameNode r MAX_player [GameNode b pb bs (Some 7), GameNode a pa as (Some 3)] None)
     = \<lparr>best_value = Num 7, best_path = [r, b]\<rparr> \<and>
   MiniMax_search (GameNode r MAX_player [GameNode a pa as (Some u), GameNode b pb bs (Some u)] None)
     = \<lparr>best_value = Num u, best_path = [r, a]\<rparr> \<and>
   MiniMax_search (GameNode r MIN_player [GameNode a pa as (Some u), GameNode b pb bs (Some u)] None)
     = \<lparr>best_value = Num u, best_path = [r, a]\<rparr>"
proof -
  have "leaves_have_utility root \<longrightarrow>
      MiniMax_search root =
        \<lparr>best_value = Num (backward_induction root), best_path = optimal_path root\<rparr>"
    using minimax_backward_induction_aux[of root "[]"] by (simp add: MiniMax_search_def)
  then show ?thesis by (simp add: minimax.simps MiniMax_search_def)
qed

theorem minimax_backward_induction_witness:
  "leaves_have_utility create_ethiopia_adversarial_game \<and>
   MiniMax_search create_ethiopia_adversarial_game =
     \<lparr>best_value = Num 8,
      best_path = [''Addis Ababa'', ''Gedo'', ''Gimbi-Limu'', ''Gimbi'']\<rparr>"
proof -
  have wf: "leaves_have_utility create_ethiopia_adversarial_game"
    by (simp add: create_ethiopia_adversarial_game_def leaf_def)
  have v: "backward_induction create_ethiopia_adversarial_game = 8"
    by (simp add: create_ethiopia_adversarial_game_def leaf_def)
  have p: "optimal_path create_ethiopia_adversarial_game =
             [''Addis Ababa'', ''Gedo'', ''Gimbi-Limu'', ''Gimbi'']"
    by (simp add: create_ethiopia_adversarial_game_def leaf_def)
  show ?thesis
    using minimax_backward_induction[of create_ethiopia_adversarial_game] wf v p by simp
qed

text \<open>
  C10. A node without utility and without children: \<^verbatim>\<open>_minimax\<close> returns, the loop body
  never runs, and the result is the initial pair: minus infinity at a MAX node, plus
  infinity at a MIN node, with the path ending at that node itself, which carries no utility.
  Under a MIN root that also has a leaf child, a childless MIN node loses to the leaf,
  and a childless MAX node wins with minus infinity: the returned path then ends at a
  node without utility.
\<close>

theorem minimax_childless_nonterminal:
  "minimax (GameNode nm MAX_player [] None) pre = (NegInf, pre @ [nm]) \<and>
   minimax (GameNode nm MIN_player [] None) pre = (PosInf, pre @ [nm]) \<and>
   MiniMax_search (GameNode nm MAX_player [] None) = \<lparr>best_value = NegInf, best_path = [nm]\<rparr> \<and>
   MiniMax_search (GameNode nm MIN_player [] None) = \<lparr>best_value = PosInf, best_path = [nm]\<rparr> \<and>
   MiniMax_search (GameNode r MIN_player [GameNode nm MIN_player [] None, GameNode l pl [] (Some u)] None)
     = \<lparr>best_value = Num u, best_path = [r, l]\<rparr> \<and>
   MiniMax_search (GameNode r MIN_player [GameNode nm MAX_player [] None, GameNode l pl [] (Some u)] None)
     = \<lparr>best_value = NegInf, best_path = [r, nm]\<rparr> \<and>
   utility (GameNode nm MAX_player [] None) = None"
  by (simp add: minimax.simps MiniMax_search_def)

end
